theory Spec2Isabelle
  imports Main "HOL-Library.Word"
begin

unbundle bit_operations_syntax

chapter \<open>Epsilon firmware updater: Intel HEX codec, SDO download, orchestrator\<close>

text \<open>
  A shallow embedding of \<^verbatim>\<open>update_firmware_v2.1.py\<close> (class
  \<^verbatim>\<open>ProductionFirmwareUpdater\<close>) and \<^verbatim>\<open>update_firmware.py\<close> (class
  \<^verbatim>\<open>FirmwareUpdater\<close> and \<^verbatim>\<open>parse_intel_hex\<close>).

  Python \<^verbatim>\<open>int\<close> is \<^typ>\<open>int\<close>; an element of a \<^verbatim>\<open>bytes\<close> or
  \<^verbatim>\<open>bytearray\<close> is an \<^typ>\<open>8 word\<close>, read back as an integer with \<^const>\<open>uint\<close>;
  ASCII text is a \<^typ>\<open>string\<close>.
\<close>

type_synonym byte = "8 word"

section \<open>Python built-ins used by the codec\<close>

definition newline :: char where
  "newline = CHR 0x0A"


text \<open>\<^verbatim>\<open>sum(chunk)\<close> over a bytes object.\<close>

definition sum_bytes :: "byte list \<Rightarrow> int" where
  "sum_bytes bs = sum_list (map uint bs)"

text \<open>One digit of the \<^verbatim>\<open>X\<close> presentation type, for a digit value below 16.\<close>

definition hex_digit :: "nat \<Rightarrow> char" where
  "hex_digit d = ''0123456789ABCDEF'' ! d"

text \<open>\<^verbatim>\<open>format(n, 'X')\<close> for a non-negative \<^verbatim>\<open>n\<close>: no leading zeros.\<close>

fun hex_digits :: "nat \<Rightarrow> string" where
  "hex_digits n = (if n < 16 then [hex_digit n] else hex_digits (n div 16) @ [hex_digit (n mod 16)])"

declare hex_digits.simps [simp del]

text \<open>\<^verbatim>\<open>f"{n:0wX}"\<close> for a non-negative \<^verbatim>\<open>n\<close>: padded with zeros on the left to width w.\<close>

definition fmt_X :: "nat \<Rightarrow> nat \<Rightarrow> string" where
  "fmt_X w n = (let s = hex_digits n in replicate (w - length s) (CHR ''0'') @ s)"

text \<open>\<^verbatim>\<open>bs.hex().upper()\<close>: two upper-case digits for each byte.\<close>

definition bytes_hex_upper :: "byte list \<Rightarrow> string" where
  "bytes_hex_upper bs = concat (map (\<lambda>b. fmt_X 2 (unat b)) bs)"

text \<open>
  \<^verbatim>\<open>struct.pack('>H', v)\<close> and \<^verbatim>\<open>struct.pack('>I', v)\<close>. The encoder only packs
  values it has masked or unpacked itself, which are in range, so the
  \<^verbatim>\<open>struct.error\<close> of an out-of-range argument has no branch here.
\<close>

definition pack_be16 :: "int \<Rightarrow> byte list" where
  "pack_be16 v = [word_of_int (drop_bit 8 v), word_of_int v]"

definition pack_be32 :: "int \<Rightarrow> byte list" where
  "pack_be32 v = [word_of_int (drop_bit 24 v), word_of_int (drop_bit 16 v),
                  word_of_int (drop_bit 8 v), word_of_int v]"

text \<open>\<^verbatim>\<open>struct.unpack('<I', bs)[0]\<close>; \<^verbatim>\<open>struct.error\<close> unless there are exactly 4 bytes.\<close>

definition unpack_le32 :: "byte list \<Rightarrow> int option" where
  "unpack_le32 bs =
     (case bs of
        [b0, b1, b2, b3] \<Rightarrow>
          Some (uint b0 + push_bit 8 (uint b1) + push_bit 16 (uint b2) + push_bit 24 (uint b3))
      | _ \<Rightarrow> None)"

section \<open>Binary to Intel HEX (\<^verbatim>\<open>_bin_to_intel_hex\<close>, v2.1)\<close>

text \<open>The Extended Linear Address record appended when the upper 16 address bits change.\<close>

definition ela_line :: "int \<Rightarrow> string" where
  "ela_line upper_addr =
     (let ela_data = pack_be16 upper_addr;
          ela_checksum = (- (2 + 0 + 0 + 4 + sum_bytes ela_data)) AND 0xFF
      in '':02000004'' @ bytes_hex_upper ela_data @ fmt_X 2 (nat ela_checksum) @ [newline])"

text \<open>The data record of one chunk.\<close>

definition data_line :: "int \<Rightarrow> byte list \<Rightarrow> string" where
  "data_line full_address chunk =
     (let byte_count = int (length chunk);
          address = full_address AND 0xFFFF;
          checksum = (- (byte_count + drop_bit 8 address + (address AND 0xFF) + 0
                         + sum_bytes chunk)) AND 0xFF
      in '':'' @ fmt_X 2 (nat byte_count) @ fmt_X 4 (nat address) @ ''00''
         @ bytes_hex_upper chunk @ fmt_X 2 (nat checksum) @ [newline])"

text \<open>
  The loop \<^verbatim>\<open>for offset in range(0, len(binary_data), bytes_per_line)\<close> with
  \<^verbatim>\<open>bytes_per_line = 16\<close>; \<^verbatim>\<open>current_upper_addr\<close> starts as \<^verbatim>\<open>None\<close>.
\<close>

function data_records :: "byte list \<Rightarrow> int \<Rightarrow> nat \<Rightarrow> int option \<Rightarrow> string list" where
  "data_records binary_data base_address offset current_upper_addr =
     (if offset < length binary_data then
        let chunk = take 16 (drop offset binary_data);
            full_address = base_address + int offset;
            upper_addr = drop_bit 16 full_address AND 0xFFFF;
            ela = (if Some upper_addr \<noteq> current_upper_addr then [ela_line upper_addr] else [])
        in ela @ [data_line full_address chunk]
           @ data_records binary_data base_address (offset + 16) (Some upper_addr)
      else [])"
  by pat_completeness auto
termination
  by (relation "measure (\<lambda>(b, a, offset, c). length b - offset)") auto

declare data_records.simps [simp del]

text \<open>The Start Linear Address record, from the reset handler at offset 4 of the binary.\<close>

definition sla_lines :: "byte list \<Rightarrow> string list" where
  "sla_lines binary_data =
     (if length binary_data \<ge> 8 then
        (case unpack_le32 (take 4 (drop 4 binary_data)) of
           None \<Rightarrow> []
         | Some reset_handler \<Rightarrow>
             let sla_data = pack_be32 reset_handler;
                 sla_checksum = (- (4 + 0 + 0 + 5 + sum_bytes sla_data)) AND 0xFF
             in ['':04000005'' @ bytes_hex_upper sla_data @ fmt_X 2 (nat sla_checksum)
                 @ [newline]])
      else [])"

definition eof_line :: string where
  "eof_line = '':00000001FF'' @ [newline]"

text \<open>The list \<^verbatim>\<open>hex_lines\<close> at the end of the function, and its concatenation.\<close>

definition hex_lines :: "byte list \<Rightarrow> int \<Rightarrow> string list" where
  "hex_lines binary_data base_address =
     data_records binary_data base_address 0 None @ sla_lines binary_data @ [eof_line]"

definition bin_to_intel_hex :: "byte list \<Rightarrow> int \<Rightarrow> string" where
  "bin_to_intel_hex binary_data base_address = concat (hex_lines binary_data base_address)"

section \<open>Python built-ins used by the parser\<close>



text \<open>The value of a hexadecimal digit, of either case.\<close>

definition hex_value :: "char \<Rightarrow> nat option" where
  "hex_value c =
     (let k = (of_char c :: nat) in
      if 48 \<le> k \<and> k \<le> 57 then Some (k - 48)
      else if 65 \<le> k \<and> k \<le> 70 then Some (k - 55)
      else if 97 \<le> k \<and> k \<le> 102 then Some (k - 87)
      else None)"








section \<open>Intel HEX to binary (\<^verbatim>\<open>parse_intel_hex\<close>, update\_firmware.py)\<close>





section \<open>The bytes of a record\<close>

text \<open>
  A record as the bytes its line spells: the colon, then two hexadecimal digits for each
  byte (byte count, address high, address low, record type, data, checksum), then the
  line end.
\<close>

fun hex_pairs :: "string \<Rightarrow> nat list option" where
  "hex_pairs [] = Some []"
| "hex_pairs [c] = None"
| "hex_pairs (a # b # cs) =
     (case hex_value a of None \<Rightarrow> None | Some x \<Rightarrow>
     (case hex_value b of None \<Rightarrow> None | Some y \<Rightarrow>
     (case hex_pairs cs of None \<Rightarrow> None | Some r \<Rightarrow> Some ((16 * x + y) # r))))"

definition record_bytes :: "string \<Rightarrow> nat list option" where
  "record_bytes l =
     (case l of
        [] \<Rightarrow> None
      | c # cs \<Rightarrow>
          if c = CHR '':'' \<and> cs \<noteq> [] \<and> last cs = newline then hex_pairs (butlast cs)
          else None)"

text \<open>The record type is the fourth byte.\<close>

definition record_type_of :: "string \<Rightarrow> nat option" where
  "record_type_of l =
     (case record_bytes l of
        None \<Rightarrow> None
      | Some bs \<Rightarrow> if length bs > 3 then Some (bs ! 3) else None)"

section \<open>Facts about the hexadecimal text\<close>

lemma hex_value_hex_digit: "d < 16 \<Longrightarrow> hex_value (hex_digit d) = Some d"
proof -
  assume "d < 16"
  then have "d = 0 \<or> d = 1 \<or> d = 2 \<or> d = 3 \<or> d = 4 \<or> d = 5 \<or> d = 6 \<or> d = 7 \<or> d = 8
      \<or> d = 9 \<or> d = 10 \<or> d = 11 \<or> d = 12 \<or> d = 13 \<or> d = 14 \<or> d = 15"
    by presburger
  then show ?thesis
    by (auto simp: hex_value_def hex_digit_def)
qed

lemma hex_digits_small: "n < 16 \<Longrightarrow> hex_digits n = [hex_digit n]"
  by (simp add: hex_digits.simps)

lemma hex_digits_step: "16 \<le> n \<Longrightarrow> hex_digits n = hex_digits (n div 16) @ [hex_digit (n mod 16)]"
  by (subst hex_digits.simps) simp

lemma hex_digit_0: "hex_digit 0 = CHR ''0''"
  by (simp add: hex_digit_def)

lemma fmt_X_2: "n < 256 \<Longrightarrow> fmt_X 2 n = [hex_digit (n div 16), hex_digit (n mod 16)]"
proof (cases "n < 16")
  case True
  then show ?thesis by (simp add: fmt_X_def hex_digits_small hex_digit_0)
next
  case False
  assume "n < 256"
  with False have "n div 16 < 16" "16 \<le> n" by auto
  then show ?thesis by (simp add: fmt_X_def hex_digits_step hex_digits_small)
qed

lemma length_fmt_X_2 [simp]: "n < 256 \<Longrightarrow> length (fmt_X 2 n) = 2"
  by (simp add: fmt_X_2)

lemma hex_digits_4:
  assumes "n < 65536"
  shows "replicate (4 - length (hex_digits n)) (CHR ''0'') @ hex_digits n =
     [hex_digit (n div 4096), hex_digit (n div 256 mod 16), hex_digit (n div 16 mod 16), hex_digit (n mod 16)]"
proof -
  consider "n < 16" | "16 \<le> n" "n < 256" | "256 \<le> n" "n < 4096" | "4096 \<le> n" by linarith
  then show ?thesis
  proof cases
    case 1
    then show ?thesis by (simp add: hex_digits_small hex_digit_0 numeral_3_eq_3)
  next
    case 2
    then have "n div 16 < 16" "n div 256 = 0" "n div 4096 = 0" by simp_all
    with 2 show ?thesis by (simp add: hex_digits_step hex_digits_small hex_digit_0 numeral_2_eq_2)
  next
    case 3
    then have a: "16 \<le> n div 16" "n div 16 div 16 < 16" "n div 4096 = 0" "16 \<le> n" by simp_all
    have b: "n div 16 div 16 = n div 256" by (simp add: div_mult2_eq[symmetric])
    have c: "n div 256 mod 16 = n div 256" using a b by simp
    show ?thesis using a by (simp add: hex_digits_step hex_digits_small hex_digit_0 b c)
  next
    case 4
    have b: "n div 16 div 16 = n div 256" "n div 256 div 16 = n div 4096" by (simp_all add: div_mult2_eq[symmetric])
    from 4 assms have a: "16 \<le> n div 16" "16 \<le> n div 256" "n div 4096 < 16" "16 \<le> n" by simp_all
    show ?thesis using a by (simp add: hex_digits_step hex_digits_small hex_digit_0 b)
  qed
qed


lemma fmt_X_4: 
  assumes "n < 65536"
  shows "fmt_X 4 n = fmt_X 2 (n div 256) @ fmt_X 2 (n mod 256)"
proof -
  have a: "n div 256 < 256" "n mod 256 < 256" using assms by simp_all
  have d1: "n div 256 div 16 = n div 4096" by (simp add: div_mult2_eq[symmetric])
  have d2: "n mod 256 div 16 = n div 16 mod 16" 
    using mod_mult2_eq[of n 16 16] by simp
  have d3: "n mod 256 mod 16 = n mod 16"
    by (rule mod_mod_cancel) simp
  have "fmt_X 4 n = [hex_digit (n div 4096), hex_digit (n div 256 mod 16), hex_digit (n div 16 mod 16), hex_digit (n mod 16)]"
    using hex_digits_4[OF assms] by (simp add: fmt_X_def)
  then show ?thesis by (simp add: fmt_X_2 a d1 d2 d3)
qed

lemma hex_pairs_fmt2: "n < 256 \<Longrightarrow> hex_pairs (fmt_X 2 n @ r) = map_option ((#) n) (hex_pairs r)"
  by (cases "hex_pairs r") (simp_all add: fmt_X_2 hex_value_hex_digit)

lemma hex_pairs_bytes:
  "hex_pairs (bytes_hex_upper bs @ r) = map_option ((@) (map unat bs)) (hex_pairs r)"
proof (induction bs)
  case Nil
  then show ?case by (simp add: bytes_hex_upper_def option.map_ident)
next
  case (Cons b bs)
  have "unat b < 256" using unsigned_less[of b] by simp
  then show ?case using Cons
    by (simp add: bytes_hex_upper_def hex_pairs_fmt2 option.map_comp comp_def)
qed

lemma and_FF: "(x::int) AND 0xFF = x mod 256"
  using take_bit_eq_mask[of 8 x] by (simp add: take_bit_eq_mod mask_eq_exp_minus_1)

lemma and_FFFF: "(x::int) AND 0xFFFF = x mod 65536"
  using take_bit_eq_mask[of 16 x] by (simp add: take_bit_eq_mod mask_eq_exp_minus_1)

lemma drop_bit_8: "drop_bit 8 (x::int) = x div 256"
  by (simp add: drop_bit_eq_div)


lemma sum_bytes_unat: "sum_bytes bs = int (sum_list (map unat bs))"
  by (induction bs) (simp_all add: sum_bytes_def)

lemma record_bytes_line [simp]:
  "record_bytes (CHR '':'' # body @ [newline]) = hex_pairs body"
  by (simp add: record_bytes_def)

lemma hex_pairs_00: "hex_pairs (CHR ''0'' # CHR ''0'' # r) = map_option ((#) 0) (hex_pairs r)"
  using hex_pairs_fmt2[of 0 r] by (simp add: fmt_X_2 hex_digit_0)

lemma hex_pairs_fmt2_end: "n < 256 \<Longrightarrow> hex_pairs (fmt_X 2 n) = Some [n]"
  using hex_pairs_fmt2[of n "[]"] by simp

definition data_checksum :: "int \<Rightarrow> byte list \<Rightarrow> nat" where
  "data_checksum full chunk =
     nat ((- (int (length chunk) + (full mod 65536) div 256 + (full mod 65536) mod 256
                    + sum_bytes chunk)) mod 256)"

lemma record_bytes_data_line:
  assumes "length chunk < 256"
  shows "record_bytes (data_line full chunk) =
    Some ([length chunk, nat (full mod 65536) div 256, nat (full mod 65536) mod 256, 0]
          @ map unat chunk @ [data_checksum full chunk])"
proof -
  define body where "body = fmt_X 2 (length chunk) @ fmt_X 4 (nat (full mod 65536))
     @ CHR ''0'' # CHR ''0'' # bytes_hex_upper chunk @ fmt_X 2 (data_checksum full chunk)"
  have a: "nat (full mod 65536) < 65536" by simp
  have c: "data_checksum full chunk < 256" by (simp add: data_checksum_def)
  have "data_line full chunk = CHR '':'' # body @ [newline]"
    by (simp add: body_def data_line_def Let_def and_FF and_FFFF drop_bit_8 data_checksum_def)
  then have "record_bytes (data_line full chunk) = hex_pairs body"
    by (simp only: record_bytes_line)
  also have "\<dots> = Some ([length chunk, nat (full mod 65536) div 256, nat (full mod 65536) mod 256, 0]
          @ map unat chunk @ [data_checksum full chunk])"
    unfolding body_def using assms a c
    by (simp add: hex_pairs_fmt2 fmt_X_4 hex_pairs_bytes hex_pairs_00 hex_pairs_fmt2_end
          del: hex_pairs.simps)
  finally show ?thesis .
qed


definition checksum_ok :: "string \<Rightarrow> bool" where
  "checksum_ok l = (case record_bytes l of None \<Rightarrow> False | Some bs \<Rightarrow> sum_list bs mod 256 = 0)"

lemma checksum_cancel: "0 \<le> s \<Longrightarrow> (nat s + nat ((- s) mod 256)) mod 256 = 0"
proof -
  assume s: "0 \<le> s"
  have "(s + (- s) mod 256) mod 256 = 0"
    by (simp add: mod_add_right_eq)
  then have "int ((nat s + nat ((- s) mod 256)) mod 256) = 0"
    using s by (simp add: zmod_int)
  then show ?thesis by simp
qed

lemma div_mod_sum_256: "0 \<le> a \<Longrightarrow> nat a div 256 = nat (a div 256) \<and> nat a mod 256 = nat (a mod 256)"
  by (simp add: nat_div_distrib nat_mod_distrib)

lemma checksum_ok_data_line:
  assumes "length chunk < 256"
  shows "checksum_ok (data_line full chunk)"
proof -
  let ?a = "full mod 65536"
  let ?s = "int (length chunk) + ?a div 256 + ?a mod 256 + sum_bytes chunk"
  have nn: "0 \<le> ?s" "0 \<le> ?a" by (simp_all add: sum_bytes_unat)
  have "length chunk + nat ?a div 256 + nat ?a mod 256 + sum_list (map unat chunk) = nat ?s"
    using div_mod_sum_256[of ?a] by (simp add: sum_bytes_unat nat_add_distrib)
  then have "sum_list ([length chunk, nat ?a div 256, nat ?a mod 256, 0]
          @ map unat chunk @ [data_checksum full chunk]) = nat ?s + nat ((- ?s) mod 256)"
    by (simp add: data_checksum_def)
  then show ?thesis
    using checksum_cancel[OF nn(1)]
    by (simp only: checksum_ok_def record_bytes_data_line[OF assms] option.case)
qed

definition ela_checksum_of :: "int \<Rightarrow> nat" where
  "ela_checksum_of u = nat ((- (6 + sum_bytes (pack_be16 u))) mod 256)"

lemma record_bytes_ela_line:
  "record_bytes (ela_line u) = Some ([2, 0, 0, 4] @ map unat (pack_be16 u) @ [ela_checksum_of u])"
proof -
  define body where "body = ''02000004'' @ bytes_hex_upper (pack_be16 u) @ fmt_X 2 (ela_checksum_of u)"
  have c: "ela_checksum_of u < 256" by (simp add: ela_checksum_of_def)
  have "ela_line u = CHR '':'' # body @ [newline]"
    by (simp add: body_def ela_line_def Let_def and_FF ela_checksum_of_def)
  then have "record_bytes (ela_line u) = hex_pairs body"
    by (simp only: record_bytes_line)
  also have "\<dots> = Some ([2, 0, 0, 4] @ map unat (pack_be16 u) @ [ela_checksum_of u])"
    unfolding body_def using c
    by (simp add: hex_pairs_bytes hex_pairs_fmt2_end hex_value_def)
  finally show ?thesis .
qed

lemma checksum_ok_ela_line: "checksum_ok (ela_line u)"
proof -
  let ?s = "6 + sum_bytes (pack_be16 u)"
  have nn: "0 \<le> ?s" by (simp add: sum_bytes_unat)
  have "sum_list ([2, 0, 0, 4] @ map unat (pack_be16 u) @ [ela_checksum_of u])
        = nat ?s + nat ((- ?s) mod 256)"
    by (simp add: ela_checksum_of_def sum_bytes_unat nat_add_distrib)
  then show ?thesis
    using checksum_cancel[OF nn]
    by (simp only: checksum_ok_def record_bytes_ela_line option.case)
qed

definition sla_checksum_of :: "int \<Rightarrow> nat" where
  "sla_checksum_of v = nat ((- (9 + sum_bytes (pack_be32 v))) mod 256)"

definition sla_line :: "int \<Rightarrow> string" where
  "sla_line v = '':04000005'' @ bytes_hex_upper (pack_be32 v) @ fmt_X 2 (sla_checksum_of v) @ [newline]"

lemma sla_lines_eq:
  "sla_lines b = (if length b \<ge> 8 then
      [sla_line (uint (b ! 4) + push_bit 8 (uint (b ! 5)) + push_bit 16 (uint (b ! 6)) + push_bit 24 (uint (b ! 7)))]
    else [])"
proof (cases "length b \<ge> 8")
  case True
  then have "drop 4 b = b ! 4 # b ! 5 # b ! 6 # b ! 7 # drop 8 b"
    using Cons_nth_drop_Suc[of 4 b] Cons_nth_drop_Suc[of 5 b] Cons_nth_drop_Suc[of 6 b]
      Cons_nth_drop_Suc[of 7 b] by simp
  then have "take 4 (drop 4 b) = [b ! 4, b ! 5, b ! 6, b ! 7]"
    by simp
  then show ?thesis using True
    by (simp add: sla_lines_def unpack_le32_def sla_line_def sla_checksum_of_def Let_def and_FF)
next
  case False
  then show ?thesis by (simp add: sla_lines_def)
qed

lemma record_bytes_sla_line:
  "record_bytes (sla_line v) = Some ([4, 0, 0, 5] @ map unat (pack_be32 v) @ [sla_checksum_of v])"
proof -
  define body where "body = ''04000005'' @ bytes_hex_upper (pack_be32 v) @ fmt_X 2 (sla_checksum_of v)"
  have c: "sla_checksum_of v < 256" by (simp add: sla_checksum_of_def)
  have "sla_line v = CHR '':'' # body @ [newline]"
    by (simp add: body_def sla_line_def)
  then have "record_bytes (sla_line v) = hex_pairs body"
    by (simp only: record_bytes_line)
  also have "\<dots> = Some ([4, 0, 0, 5] @ map unat (pack_be32 v) @ [sla_checksum_of v])"
    unfolding body_def using c
    by (simp add: hex_pairs_bytes hex_pairs_fmt2_end hex_value_def)
  finally show ?thesis .
qed

lemma checksum_ok_sla_line: "checksum_ok (sla_line v)"
proof -
  let ?s = "9 + sum_bytes (pack_be32 v)"
  have nn: "0 \<le> ?s" by (simp add: sum_bytes_unat)
  have "sum_list ([4, 0, 0, 5] @ map unat (pack_be32 v) @ [sla_checksum_of v])
        = nat ?s + nat ((- ?s) mod 256)"
    by (simp add: sla_checksum_of_def sum_bytes_unat nat_add_distrib)
  then show ?thesis
    using checksum_cancel[OF nn]
    by (simp only: checksum_ok_def record_bytes_sla_line option.case)
qed

lemma record_bytes_eof_line: "record_bytes eof_line = Some [0, 0, 0, 1, 255]"
proof -
  have "record_bytes eof_line = record_bytes (CHR '':'' # ''00000001FF'' @ [newline])"
    by (simp add: eof_line_def)
  also have "\<dots> = hex_pairs ''00000001FF''" by (rule record_bytes_line)
  finally show ?thesis by (simp add: hex_value_def)
qed

lemma checksum_ok_eof_line: "checksum_ok eof_line"
  by (simp add: checksum_ok_def record_bytes_eof_line)

lemma data_records_cases:
  "l \<in> set (data_records b a off cur) \<Longrightarrow>
     (\<exists>u. l = ela_line u) \<or> (\<exists>full chunk. l = data_line full chunk \<and> length chunk \<le> 16)"
proof (induction b a off cur rule: data_records.induct)
  case (1 b a off cur)
  show ?case
  proof (cases "off < length b")
    case True
    from "1.prems" True have
      "l = ela_line (drop_bit 16 (a + int off) AND 0xFFFF) \<or> l = data_line (a + int off) (take 16 (drop off b))
       \<or> l \<in> set (data_records b a (off + 16) (Some (drop_bit 16 (a + int off) AND 0xFFFF)))"
      by (subst (asm) data_records.simps) (auto simp: Let_def split: if_splits)
    moreover have "length (take 16 (drop off b)) \<le> 16" by simp
    ultimately show ?thesis using "1.IH"[OF True refl refl refl refl] by blast
  next
    case False
    with "1.prems" show ?thesis by (subst (asm) data_records.simps) simp
  qed
qed

lemma hex_lines_checksum: "l \<in> set (hex_lines b a) \<Longrightarrow> checksum_ok l"
  using data_records_cases[of l b a 0 None]
  by (auto simp: hex_lines_def sla_lines_eq checksum_ok_ela_line checksum_ok_data_line
      checksum_ok_sla_line checksum_ok_eof_line split: if_splits)

text \<open>
  Claim C3 (checksum law). Every record the encoder emits, whether a data, Extended Linear
  Address, Start Linear Address or End Of File record, spells bytes (byte count, address
  high, address low, record type, data, checksum) whose sum is 0 modulo 256.
\<close>

theorem checksum_law:
  "l \<in> set (hex_lines binary_data base_address) \<Longrightarrow>
   \<exists>bs. record_bytes l = Some bs \<and> sum_list bs mod 256 = 0"
  using hex_lines_checksum[of l binary_data base_address]
  by (simp add: checksum_ok_def split: option.splits)

lemma data_line_example:
  "data_line 0x08018000 [1, 2, 3] = '':0380000001020377'' @ [newline]"
  by (simp add: data_line_def and_FF and_FFFF drop_bit_8 sum_bytes_def fmt_X_2 fmt_X_4 hex_digit_def
      bytes_hex_upper_def)

theorem checksum_law_witness:
  "\<exists>bs. record_bytes ('':0380000001020377'' @ [newline]) = Some bs \<and> sum_list bs mod 256 = 0"
proof -
  have "data_line 0x08018000 [1, 2, 3] \<in> set (hex_lines [1, 2, 3] 0x08018000)"
    by (simp add: hex_lines_def data_records.simps[of _ _ 0])
  then show ?thesis using checksum_law[of "data_line 0x08018000 [1, 2, 3]" "[1, 2, 3]" "0x08018000"]
    by (simp only: data_line_example)
qed

lemma unat_byte_of_int: "unat (word_of_int x :: byte) = nat (x mod 256)"
  by (simp add: unat_eq_nat_uint uint_word_of_int take_bit_eq_mod)

definition entry_point :: "byte list \<Rightarrow> nat" where
  "entry_point b = unat (b ! 4) + 256 * unat (b ! 5) + 65536 * unat (b ! 6) + 16777216 * unat (b ! 7)"

lemma le32_entry_point:
  "uint (b ! 4) + push_bit 8 (uint (b ! 5)) + push_bit 16 (uint (b ! 6)) + push_bit 24 (uint (b ! 7))
    = int (entry_point b)"
  by (simp add: entry_point_def push_bit_eq_mult)

lemma unat_byte_drop_bit:
  "unat (word_of_int (drop_bit k (int e)) :: byte) = e div 2 ^ k mod 256"
proof -
  have "drop_bit k (int e) mod 256 = int (drop_bit k e mod 256)"
    by (simp add: drop_bit_of_nat zmod_int)
  then have "nat (drop_bit k (int e) mod 256) = drop_bit k e mod 256"
    by (simp only: nat_int)
  then show ?thesis by (simp add: unat_byte_of_int drop_bit_eq_div)
qed

lemma map_unat_pack_be32:
  "map unat (pack_be32 (int e)) = [e div 16777216 mod 256, e div 65536 mod 256, e div 256 mod 256, e mod 256]"
  using unat_byte_drop_bit[of 24 e] unat_byte_drop_bit[of 16 e] unat_byte_drop_bit[of 8 e]
    unat_byte_drop_bit[of 0 e]
  by (simp add: pack_be32_def)

lemma record_type_data_line: "length chunk < 256 \<Longrightarrow> record_type_of (data_line full chunk) = Some 0"
  by (simp add: record_type_of_def record_bytes_data_line)

lemma record_type_ela_line: "record_type_of (ela_line u) = Some 4"
  by (simp add: record_type_of_def record_bytes_ela_line)

lemma record_type_sla_line: "record_type_of (sla_line v) = Some 5"
  by (simp add: record_type_of_def record_bytes_sla_line)

lemma record_type_eof_line: "record_type_of eof_line = Some 1"
  by (simp add: record_type_of_def record_bytes_eof_line)

lemma data_records_no_sla:
  "filter (\<lambda>l. record_type_of l = Some 5) (data_records b a off cur) = []"
proof -
  have "\<forall>l \<in> set (data_records b a off cur). record_type_of l \<noteq> Some 5"
  proof
    fix l assume "l \<in> set (data_records b a off cur)"
    from data_records_cases[OF this] show "record_type_of l \<noteq> Some 5"
      by (auto simp: record_type_ela_line record_type_data_line)
  qed
  then show ?thesis by (simp add: filter_empty_conv)
qed


lemma filter_sla_hex_lines:
  "filter (\<lambda>l. record_type_of l = Some 5) (hex_lines b a) =
     (if 8 \<le> length b then [sla_line (int (entry_point b))] else [])"
  by (simp add: hex_lines_def data_records_no_sla sla_lines_eq le32_entry_point
      record_type_sla_line record_type_eof_line)

lemma last_hex_lines: "hex_lines b a \<noteq> [] \<and> last (hex_lines b a) = eof_line"
  by (simp add: hex_lines_def)

text \<open>
  Claim C8 (entry point record). For a binary of at least 8 bytes the encoder emits exactly
  one record of type 05, and its four data bytes are the big-endian bytes of the
  little-endian 32-bit value at offsets 4 to 7 of the binary. For a shorter binary it emits
  no record of type 05, and the output still ends with the End Of File record.
\<close>

theorem entry_point_record:
  "(8 \<le> length b \<longrightarrow>
      (\<exists>l c. filter (\<lambda>l. record_type_of l = Some 5) (hex_lines b a) = [l] \<and>
             record_bytes l = Some [4, 0, 0, 5,
               entry_point b div 16777216 mod 256, entry_point b div 65536 mod 256,
               entry_point b div 256 mod 256, entry_point b mod 256, c])) \<and>
   (length b < 8 \<longrightarrow>
      filter (\<lambda>l. record_type_of l = Some 5) (hex_lines b a) = [] \<and>
      hex_lines b a \<noteq> [] \<and> last (hex_lines b a) = eof_line)"
  by (simp add: filter_sla_hex_lines last_hex_lines record_bytes_sla_line map_unat_pack_be32)

theorem entry_point_record_witness:
  "(\<exists>l c. filter (\<lambda>l. record_type_of l = Some 5)
             (hex_lines [0, 0, 0, 0, 0x78, 0x56, 0x34, 0x12] 0x08018000) = [l] \<and>
          record_bytes l = Some [4, 0, 0, 5, 0x12, 0x34, 0x56, 0x78, c]) \<and>
   filter (\<lambda>l. record_type_of l = Some 5) (hex_lines [1, 2, 3] 0x08018000) = []"
  using entry_point_record[of "[0, 0, 0, 0, 0x78, 0x56, 0x34, 0x12]" "0x08018000"]
    entry_point_record[of "[1, 2, 3]" "0x08018000"]
  by (simp add: entry_point_def)

section \<open>Round trip of the codec\<close>
















lemma length_bytes_hex_upper [simp]: "length (bytes_hex_upper bs) = 2 * length bs"
proof (induction bs)
  case Nil
  then show ?case by (simp add: bytes_hex_upper_def)
next
  case (Cons b bs)
  have "unat b < 256" using unsigned_less[of b] by simp
  then show ?case using Cons by (simp add: bytes_hex_upper_def)
qed









lemma last_fmt2: "n < 256 \<Longrightarrow> last (xs @ fmt_X 2 n) = hex_digit (n mod 16)"
  by (simp add: fmt_X_2)










































section \<open>The CAN bus, the clock and the cancellation token\<close>

text \<open>
  A \<^verbatim>\<open>can.Message\<close>: the arbitration id and the data bytes (at most 8 on a classic
  CAN frame; a heartbeat frame has one).
\<close>

record message =
  arbitration_id :: int
  data :: "byte list"
  is_extended_id :: bool

datatype Progress = FILE | BOOTLOADER | FLASHING | VERIFYING | APPLICATION

datatype State = BUSY | FAILED | CANCELED | SUCCESS

text \<open>
  Exceptions the modelled code can raise: \<^verbatim>\<open>IndexError\<close> when a frame is too short for
  the byte that is read, \<^verbatim>\<open>struct.error\<close> when it has fewer than four bytes from
  offset 4, \<^verbatim>\<open>InterruptedError\<close> from \<^verbatim>\<open>throw_if_cancelled\<close>, and the
  \<^verbatim>\<open>Exception\<close> the orchestrator raises itself.
\<close>

datatype exn = IndexError | StructError | InterruptedError | Failure string

text \<open>
  The world the updater runs in. Time is counted in milliseconds; every timeout and sleep
  of the source is a whole number of them. \<open>rx\<close> says what the coming calls of
  \<^verbatim>\<open>bus.recv\<close> do: how long the call takes and the frame it returns (\<open>None\<close> when
  it times out); when the list is used up the bus stays silent and a call takes its full
  timeout. \<open>tx\<close> are the frames given to \<^verbatim>\<open>bus.send\<close>, oldest first.
  \<open>cancel_at\<close> is the time at which the caller sets the cancellation token, if ever.
  \<open>sink\<close> are the calls of \<^verbatim>\<open>_notify\<close>, oldest first (what the progress callback
  receives). \<open>files\<close> gives the content of a file that can be read.
  Printing is left out, together with the arithmetic that only computes printed text.
\<close>

record world =
  now :: nat
  rx :: "(nat \<times> message option) list"
  tx :: "message list"
  cancel_at :: "nat option"
  sink :: "(Progress \<times> State) list"
  files :: "string \<Rightarrow> byte list option"

definition bus_recv :: "nat \<Rightarrow> world \<Rightarrow> message option \<times> world" where
  "bus_recv timeout w =
     (case rx w of
        [] \<Rightarrow> (None, w\<lparr>now := now w + timeout\<rparr>)
      | (d, m) # rest \<Rightarrow> (m, w\<lparr>now := now w + d, rx := rest\<rparr>))"

definition bus_send :: "message \<Rightarrow> world \<Rightarrow> world" where
  "bus_send msg w = w\<lparr>tx := tx w @ [msg]\<rparr>"

definition sleep :: "nat \<Rightarrow> world \<Rightarrow> world" where
  "sleep ms w = w\<lparr>now := now w + ms\<rparr>"

definition is_cancelled :: "world \<Rightarrow> bool" where
  "is_cancelled w = (case cancel_at w of None \<Rightarrow> False | Some t \<Rightarrow> t \<le> now w)"

definition notify :: "Progress \<Rightarrow> State \<Rightarrow> world \<Rightarrow> world" where
  "notify progress state w = w\<lparr>sink := sink w @ [(progress, state)]\<rparr>"

text \<open>The two COB-IDs set in \<^verbatim>\<open>__init__\<close>.\<close>

definition sdo_tx :: "int \<Rightarrow> int" where
  "sdo_tx node_id = 0x600 + node_id"

definition sdo_rx :: "int \<Rightarrow> int" where
  "sdo_rx node_id = 0x580 + node_id"

text \<open>\<^verbatim>\<open>while self.bus.recv(timeout=t): pass\<close>: reads until a call times out.\<close>

function drain :: "nat \<Rightarrow> world \<Rightarrow> world" where
  "drain timeout w =
     (case bus_recv timeout w of
        (None, w') \<Rightarrow> w'
      | (Some msg, w') \<Rightarrow> drain timeout w')"
  by pat_completeness auto
termination
  by (relation "measure (\<lambda>(t, w). length (rx w))")
     (auto simp: bus_recv_def split: list.splits)

declare drain.simps [simp del]

text \<open>
  \<^verbatim>\<open>_wait_for_sdo_response\<close> (v2.1): the first frame with the node's SDO response id
  that arrives before the time is up; heartbeats and other ids are skipped.
\<close>

function wait_loop :: "int \<Rightarrow> nat \<Rightarrow> nat \<Rightarrow> world \<Rightarrow> message option \<times> world" where
  "wait_loop node_id start_time timeout w =
     (if now w - start_time < timeout then
        (case bus_recv 100 w of
           (None, w') \<Rightarrow> wait_loop node_id start_time timeout w'
         | (Some msg, w') \<Rightarrow>
             if arbitration_id msg = 0x700 + node_id then wait_loop node_id start_time timeout w'
             else if arbitration_id msg = sdo_rx node_id then (Some msg, w')
             else wait_loop node_id start_time timeout w')
      else (None, w))"
  by pat_completeness auto
termination
  by (relation "measures [\<lambda>(n, s, t, w). length (rx w), \<lambda>(n, s, t, w). s + t - now w]")
     (auto simp: bus_recv_def split: list.splits)

declare wait_loop.simps [simp del]

definition wait_for_sdo_response :: "int \<Rightarrow> nat \<Rightarrow> world \<Rightarrow> message option \<times> world" where
  "wait_for_sdo_response node_id timeout w = wait_loop node_id (now w) timeout w"

text \<open>
  Reading the abort code of a response, \<^verbatim>\<open>struct.unpack('<I', response.data[4:8])[0]\<close>.
\<close>

definition abort_code_of :: "message \<Rightarrow> int option" where
  "abort_code_of response = unpack_le32 (take 4 (drop 4 (data response)))"

section \<open>Mode control (\<^verbatim>\<open>_set_program\<close>, \<^verbatim>\<open>_get_program\<close>, v2.1)\<close>

definition set_program :: "int \<Rightarrow> byte \<Rightarrow> world \<Rightarrow> (exn + bool) \<times> world" where
  "set_program node_id program w =
     (let w1 = drain 1 w;
          msg = \<lparr>arbitration_id = sdo_tx node_id,
                 data = [0x2F, 0x51, 0x1F, 0x01, program, 0x00, 0x00, 0x00],
                 is_extended_id = False\<rparr>;
          w2 = bus_send msg w1
      in case bus_recv 1000 w2 of
           (None, w3) \<Rightarrow> (Inr True, w3)
         | (Some response, w3) \<Rightarrow>
             if arbitration_id response = sdo_rx node_id then
               (case data response of
                  [] \<Rightarrow> (Inl IndexError, w3)
                | b0 # _ \<Rightarrow>
                    if b0 = 0x60 then (Inr True, w3)
                    else if b0 = 0x80 then
                      (case abort_code_of response of
                         None \<Rightarrow> (Inl StructError, w3)
                       | Some abort_code \<Rightarrow>
                           if abort_code = 0x05040000 then (Inr True, w3) else (Inr False, w3))
                    else (Inr True, w3))
             else (Inr True, w3))"

definition get_program :: "int \<Rightarrow> world \<Rightarrow> (exn + byte option) \<times> world" where
  "get_program node_id w =
     (let w1 = drain 1 w;
          msg = \<lparr>arbitration_id = sdo_tx node_id,
                 data = [0x40, 0x51, 0x1F, 0x01, 0x00, 0x00, 0x00, 0x00],
                 is_extended_id = False\<rparr>;
          w2 = bus_send msg w1
      in case bus_recv 500 w2 of
           (None, w3) \<Rightarrow> (Inr None, w3)
         | (Some response, w3) \<Rightarrow>
             if arbitration_id response \<noteq> sdo_rx node_id then (Inr None, w3)
             else
               (case data response of
                  [] \<Rightarrow> (Inl IndexError, w3)
                | b0 # _ \<Rightarrow>
                    if b0 = 0x4F then
                      (if length (data response) > 4 then (Inr (Some (data response ! 4)), w3)
                       else (Inl IndexError, w3))
                    else (Inr None, w3)))"

section \<open>Firmware status (\<^verbatim>\<open>get_firmware_status\<close>, update\_firmware.py)\<close>

definition get_firmware_status :: "int \<Rightarrow> world \<Rightarrow> (exn + (string \<times> int) option) \<times> world" where
  "get_firmware_status node_id w =
     (let msg = \<lparr>arbitration_id = sdo_tx node_id,
                 data = [0x40, 0x57, 0x1F, 0x01, 0x00, 0x00, 0x00, 0x00],
                 is_extended_id = False\<rparr>;
          w1 = bus_send msg w
      in case bus_recv 1000 w1 of
           (None, w2) \<Rightarrow> (Inr None, w2)
         | (Some response, w2) \<Rightarrow>
             if arbitration_id response \<noteq> sdo_rx node_id then (Inr None, w2)
             else
               (case data response of
                  [] \<Rightarrow> (Inl IndexError, w2)
                | b0 # _ \<Rightarrow>
                    if b0 = 0x4F then
                      (if length (data response) > 4 then
                         let val = uint (data response ! 4);
                             status_bit = val AND 1
                         in if status_bit = 0 then
                              let error_code = drop_bit 8 val AND 0x7F
                              in if error_code > 0 then (Inr (Some (''Error'', error_code)), w2)
                                 else (Inr (Some (''Ok'', 0)), w2)
                            else if status_bit = 1 then (Inr (Some (''Busy'', 0)), w2)
                            else (Inr None, w2)
                       else (Inl IndexError, w2))
                    else (Inr None, w2)))"

lemma rx_bus_send [simp]: "rx (bus_send msg w) = rx w"
  by (simp add: bus_send_def)



lemma drain_Nil: "rx w = [] \<Longrightarrow> drain t w = w\<lparr>now := now w + t\<rparr>"
  by (subst drain.simps) (simp add: bus_recv_def)

lemma drain_None: "rx w = (d, None) # s \<Longrightarrow> drain t w = w\<lparr>now := now w + d, rx := s\<rparr>"
  by (subst drain.simps) (simp add: bus_recv_def)

lemma drain_Some:
  "rx w = (d, Some m) # s \<Longrightarrow> drain t w = drain t (w\<lparr>now := now w + d, rx := s\<rparr>)"
  by (subst drain.simps) (simp add: bus_recv_def)



definition quiet_world :: "(nat \<times> message option) list \<Rightarrow> world" where
  "quiet_world script = \<lparr>now = 0, rx = script, tx = [], cancel_at = None, sink = [],
     files = (\<lambda>p. None)\<rparr>"





lemma byte_shift_8: "drop_bit 8 (uint (b :: byte)) = 0"
proof -
  have "uint b < 256" using uint_lt2p[of b] by simp
  then show ?thesis by (simp add: drop_bit_eq_div)
qed

lemma and_1_cases: "(x::int) AND 1 = 0 \<or> x AND 1 = 1"
  by (simp add: and_one_eq) presburger

definition status_frame :: "byte \<Rightarrow> message" where
  "status_frame v = \<lparr>arbitration_id = 0x581, data = [0x4F, 0x57, 0x1F, 0x01, v, 0, 0, 0],
     is_extended_id = False\<rparr>"

lemma get_firmware_status_results:
  "fst (get_firmware_status n w) = Inr (Some r) \<Longrightarrow> r = (''Ok'', 0) \<or> r = (''Busy'', 0)"
  by (auto simp: get_firmware_status_def Let_def byte_shift_8 split: prod.splits option.splits
      list.splits if_splits)

lemma get_firmware_status_example:
  "fst (get_firmware_status 1 (quiet_world [(5, Some (status_frame v))])) =
     Inr (Some (if uint v AND 1 = 0 then (''Ok'', 0) else (''Busy'', 0)))"
  using and_1_cases[of "uint v"]
  by (auto simp: get_firmware_status_def Let_def byte_shift_8 quiet_world_def status_frame_def
      bus_recv_def bus_send_def sdo_rx_def)

text \<open>
  Claim C10 (firmware status of the simple implementation). Whatever the device answers,
  \<^verbatim>\<open>get_firmware_status\<close> never returns an \<^verbatim>\<open>("Error", code)\<close> pair: the error code is
  bits 8 to 14 of a value read from one byte, which is 0. The results other than
  \<^verbatim>\<open>None\<close> are exactly \<^verbatim>\<open>("Ok", 0)\<close> and \<^verbatim>\<open>("Busy", 0)\<close>, and both occur.
\<close>

theorem error_status_unreachable:
  "(\<forall>c. fst (get_firmware_status n w) \<noteq> Inr (Some (''Error'', c))) \<and>
   (\<forall>r. fst (get_firmware_status n w) = Inr (Some r) \<longrightarrow> r = (''Ok'', 0) \<or> r = (''Busy'', 0)) \<and>
   (\<exists>w'. fst (get_firmware_status n w') = Inr (Some (''Ok'', 0))) \<and>
   (\<exists>w'. fst (get_firmware_status n w') = Inr (Some (''Busy'', 0)))"
proof -
  have a: "\<forall>r. fst (get_firmware_status n w) = Inr (Some r) \<longrightarrow> r = (''Ok'', 0) \<or> r = (''Busy'', 0)"
    using get_firmware_status_results by blast
  then have b: "\<forall>c. fst (get_firmware_status n w) \<noteq> Inr (Some (''Error'', c))"
    by fastforce
  let ?w = "\<lambda>v. \<lparr>now = 0, rx = [(5, Some \<lparr>arbitration_id = sdo_rx n,
      data = [0x4F, 0x57, 0x1F, 0x01, v, 0, 0, 0], is_extended_id = False\<rparr>)], tx = [],
      cancel_at = None, sink = [], files = (\<lambda>p. None)\<rparr>"
  have "fst (get_firmware_status n (?w 0)) = Inr (Some (''Ok'', 0))"
    by (simp add: get_firmware_status_def Let_def bus_recv_def bus_send_def)
  moreover have "fst (get_firmware_status n (?w 1)) = Inr (Some (''Busy'', 0))"
    by (simp add: get_firmware_status_def Let_def bus_recv_def bus_send_def)
  ultimately show ?thesis using a b by blast
qed

theorem error_status_unreachable_witness:
  "fst (get_firmware_status 1 (quiet_world [(5, Some (status_frame 0xFE))])) = Inr (Some (''Ok'', 0))"
proof -
  have "fst (get_firmware_status 1 (quiet_world [(5, Some (status_frame 0xFE))])) \<in>
      {Inr (Some (''Ok'', 0)), Inr (Some (''Error'', 127))}"
    by (simp add: get_firmware_status_example)
  then show ?thesis
    using error_status_unreachable[of 1 "quiet_world [(5, Some (status_frame 0xFE))]"]
    by auto
qed

section \<open>Segmented download (\<^verbatim>\<open>_sdo_segmented_download\<close>)\<close>

text \<open>
  \<^verbatim>\<open>struct.pack('<I', len(data))\<close>, with \<^verbatim>\<open>struct.error\<close> for a length that does not
  fit 32 bits.
\<close>

definition pack_le32 :: "int \<Rightarrow> byte list option" where
  "pack_le32 v =
     (if 0 \<le> v \<and> v < 2 ^ 32 then
        Some [word_of_int v, word_of_int (drop_bit 8 v), word_of_int (drop_bit 16 v),
              word_of_int (drop_bit 24 v)]
      else None)"

definition initiate_frame :: "int \<Rightarrow> int \<Rightarrow> byte \<Rightarrow> byte list \<Rightarrow> message" where
  "initiate_frame node_id index subindex size_bytes =
     \<lparr>arbitration_id = sdo_tx node_id,
      data = [0x21, word_of_int (index AND 0xFF), word_of_int (drop_bit 8 index AND 0xFF), subindex]
             @ size_bytes,
      is_extended_id = False\<rparr>"

text \<open>The command byte of a segment, as the loop body builds it.\<close>

definition segment_cmd :: "int \<Rightarrow> bool \<Rightarrow> nat \<Rightarrow> int" where
  "segment_cmd toggle is_last bytes_in_segment =
     (let cmd = push_bit 4 toggle;
          cmd = (if is_last then cmd OR 0x01 else cmd);
          n = 7 - int bytes_in_segment
      in cmd OR push_bit 1 n)"

definition segment_frame :: "int \<Rightarrow> int \<Rightarrow> byte list \<Rightarrow> message" where
  "segment_frame node_id cmd segment_data =
     \<lparr>arbitration_id = sdo_tx node_id,
      data = word_of_int cmd # (segment_data @ replicate (7 - length segment_data) 0),
      is_extended_id = False\<rparr>"

text \<open>
  The loop \<^verbatim>\<open>while offset < len(data)\<close> of v2.1, from the state (offset, toggle,
  segment\_num). The progress bar and the closing line are printing and are left out; the
  closing line divides the length by the time the loop took on the wall clock, which is
  taken to be positive (the clock of the model advances only in \<^verbatim>\<open>bus.recv\<close> and
  \<^verbatim>\<open>time.sleep\<close>).
\<close>

function segment_loop ::
  "int \<Rightarrow> byte list \<Rightarrow> nat \<Rightarrow> int \<Rightarrow> nat \<Rightarrow> world \<Rightarrow> (exn + bool) \<times> world" where
  "segment_loop node_id payload offset toggle segment_num w =
     (if offset < length payload then
        if is_cancelled w then (Inr False, w)
        else
          let segment_data = take 7 (drop offset payload);
              bytes_in_segment = length segment_data;
              is_last = (offset + bytes_in_segment \<ge> length payload);
              cmd = segment_cmd toggle is_last bytes_in_segment;
              w1 = bus_send (segment_frame node_id cmd segment_data) w
          in case wait_for_sdo_response node_id 2000 w1 of
               (None, w2) \<Rightarrow> (Inr False, w2)
             | (Some response, w2) \<Rightarrow>
                 (case data response of
                    [] \<Rightarrow> (Inl IndexError, w2)
                  | b0 # _ \<Rightarrow>
                      if b0 = 0x80 then
                        (case abort_code_of response of
                           None \<Rightarrow> (Inl StructError, w2)
                         | Some abort_code \<Rightarrow> (Inr False, w2))
                      else if uint b0 AND 0xE0 \<noteq> 0x20 then (Inr False, w2)
                      else if drop_bit 4 (uint b0) AND 0x01 \<noteq> toggle then (Inr False, w2)
                      else segment_loop node_id payload (offset + bytes_in_segment) (1 - toggle)
                             (segment_num + 1) w2)
      else (Inr True, w))"
  by pat_completeness auto
termination
  by (relation "measure (\<lambda>(n, p, offset, t, s, w). length p - offset)") auto

declare segment_loop.simps [simp del]

text \<open>The function of v2.1; the parameter \<^verbatim>\<open>timeout\<close> is not used by the source.\<close>

definition sdo_segmented_download ::
  "int \<Rightarrow> int \<Rightarrow> byte \<Rightarrow> byte list \<Rightarrow> world \<Rightarrow> (exn + bool) \<times> world" where
  "sdo_segmented_download node_id index subindex payload w =
     (let w0 = drain 1 w in
      case pack_le32 (int (length payload)) of
        None \<Rightarrow> (Inl StructError, w0)
      | Some size_bytes \<Rightarrow>
          (let w1 = bus_send (initiate_frame node_id index subindex size_bytes) w0
           in (case wait_for_sdo_response node_id 5000 w1 of
                 (None, w2) \<Rightarrow> (Inr False, w2)
               | (Some response, w2) \<Rightarrow>
                   (case data response of
                      [] \<Rightarrow> (Inl IndexError, w2)
                    | b0 # _ \<Rightarrow>
                        if b0 = 0x80 then
                          (case abort_code_of response of
                             None \<Rightarrow> (Inl StructError, w2)
                           | Some abort_code \<Rightarrow> (Inr False, w2))
                        else if b0 \<noteq> 0x60 then (Inr False, w2)
                        else segment_loop node_id payload 0 0 0 w2))))"

section \<open>Segmented download of the simple implementation (update\_firmware.py)\<close>

text \<open>
  The wait for the initiate response: \<^verbatim>\<open>while time.time() - start_time < 5.0\<close> with its
  \<^verbatim>\<open>else\<close> clause. \<open>Inr True\<close> is the \<^verbatim>\<open>break\<close>, \<open>Inr False\<close> a
  \<^verbatim>\<open>return False\<close>.
\<close>

function initiate_loop :: "int \<Rightarrow> nat \<Rightarrow> world \<Rightarrow> (exn + bool) \<times> world" where
  "initiate_loop node_id start_time w =
     (if now w - start_time < 5000 then
        (case bus_recv 500 w of
           (None, w') \<Rightarrow> initiate_loop node_id start_time w'
         | (Some response, w') \<Rightarrow>
             if arbitration_id response \<noteq> sdo_rx node_id then initiate_loop node_id start_time w'
             else
               (case data response of
                  [] \<Rightarrow> (Inl IndexError, w')
                | b0 # _ \<Rightarrow>
                    if b0 = 0x80 then
                      (case abort_code_of response of
                         None \<Rightarrow> (Inl StructError, w')
                       | Some abort_code \<Rightarrow> (Inr False, w'))
                    else if b0 \<noteq> 0x60 then initiate_loop node_id start_time w'
                    else (Inr True, w')))
      else (Inr False, w))"
  by pat_completeness auto
termination
  by (relation "measures [\<lambda>(n, s, w). length (rx w), \<lambda>(n, s, w). s + 5000 - now w]")
     (auto simp: bus_recv_def split: list.splits)

declare initiate_loop.simps [simp del]

text \<open>
  The segment loop of the simple implementation. Its inner loop that waits for the segment
  response is, statement for statement, \<^verbatim>\<open>_wait_for_sdo_response(2.0)\<close> of v2.1.
\<close>

function segment_loop_simple ::
  "int \<Rightarrow> byte list \<Rightarrow> nat \<Rightarrow> int \<Rightarrow> nat \<Rightarrow> world \<Rightarrow> (exn + bool) \<times> world" where
  "segment_loop_simple node_id payload offset toggle segment_num w =
     (if offset < length payload then
        let segment_data = take 7 (drop offset payload);
            bytes_in_segment = length segment_data;
            is_last = (offset + bytes_in_segment \<ge> length payload);
            cmd = segment_cmd toggle is_last bytes_in_segment;
            w1 = bus_send (segment_frame node_id cmd segment_data) w
        in case wait_for_sdo_response node_id 2000 w1 of
             (None, w2) \<Rightarrow> (Inr False, w2)
           | (Some response, w2) \<Rightarrow>
               (case data response of
                  [] \<Rightarrow> (Inl IndexError, w2)
                | b0 # _ \<Rightarrow>
                    if b0 = 0x80 then
                      (case abort_code_of response of
                         None \<Rightarrow> (Inl StructError, w2)
                       | Some abort_code \<Rightarrow> (Inr False, w2))
                    else if uint b0 AND 0xE0 \<noteq> 0x20 then (Inr False, w2)
                    else if drop_bit 4 (uint b0) AND 0x01 \<noteq> toggle then (Inr False, w2)
                    else segment_loop_simple node_id payload (offset + bytes_in_segment)
                           (1 - toggle) (segment_num + 1) w2)
      else (Inr True, w))"
  by pat_completeness auto
termination
  by (relation "measure (\<lambda>(n, p, offset, t, s, w). length p - offset)") auto

declare segment_loop_simple.simps [simp del]

definition sdo_segmented_download_simple ::
  "int \<Rightarrow> int \<Rightarrow> byte \<Rightarrow> byte list \<Rightarrow> world \<Rightarrow> (exn + bool) \<times> world" where
  "sdo_segmented_download_simple node_id index subindex payload w =
     (let w0 = drain 10 w in
      case pack_le32 (int (length payload)) of
        None \<Rightarrow> (Inl StructError, w0)
      | Some size_bytes \<Rightarrow>
          (let w1 = bus_send (initiate_frame node_id index subindex size_bytes) w0
           in (case initiate_loop node_id (now w1) w1 of
                 (Inr True, w2) \<Rightarrow> segment_loop_simple node_id payload 0 0 0 w2
               | (r, w2) \<Rightarrow> (r, w2))))"

lemma tx_bus_recv [simp]: "tx (snd (bus_recv t w)) = tx w"
  by (simp add: bus_recv_def split: list.splits prod.splits)

lemma tx_drain [simp]: "tx (drain t w) = tx w"
proof (induction t w rule: drain.induct)
  case (1 t w)
  obtain m w' where r: "bus_recv t w = (m, w')" by (cases "bus_recv t w")
  then have "tx w' = tx w" using tx_bus_recv[of t w] by simp
  then show ?case using 1 r by (subst drain.simps) (auto split: option.splits)
qed

lemma tx_wait_loop [simp]: "tx (snd (wait_loop n s t w)) = tx w"
proof (induction n s t w rule: wait_loop.induct)
  case (1 n s t w)
  obtain m w' where r: "bus_recv 100 w = (m, w')" by (cases "bus_recv 100 w")
  then have "tx w' = tx w" using tx_bus_recv[of 100 w] by simp
  then show ?case using 1 r by (subst wait_loop.simps) (auto split: option.splits)
qed









definition segment_frames :: "world \<Rightarrow> world \<Rightarrow> message list" where
  "segment_frames w w' = tl (drop (length (tx w)) (tx w'))"
















lemma cancel_at_drain [simp]: "cancel_at (drain t w) = cancel_at w"
proof (induction t w rule: drain.induct)
  case (1 t w)
  obtain m w' where r: "bus_recv t w = (m, w')" by (cases "bus_recv t w")
  then have "cancel_at w' = cancel_at w" by (auto simp: bus_recv_def split: list.splits)
  then show ?case using 1 r by (subst drain.simps) (auto split: option.splits)
qed





definition ack_frame :: "byte \<Rightarrow> message" where
  "ack_frame c = \<lparr>arbitration_id = 0x581, data = [c, 0, 0, 0, 0, 0, 0, 0], is_extended_id = False\<rparr>"

definition ten_bytes :: "byte list" where
  "ten_bytes = [1, 2, 3, 4, 5, 6, 7, 8, 9, 10]"

definition acked_world :: world where
  "acked_world = quiet_world [(1, None), (3, Some (ack_frame 0x60)), (2, Some (ack_frame 0x20)),
     (2, Some (ack_frame 0x30))]"

lemmas run_simps = quiet_world_def ack_frame_def sdo_segmented_download_def drain.simps
  bus_recv_def bus_send_def wait_for_sdo_response_def wait_loop.simps segment_loop.simps
  is_cancelled_def pack_le32_def sdo_rx_def sdo_tx_def Let_def abort_code_of_def unpack_le32_def

lemma ten_bytes_run:
  "fst (sdo_segmented_download 1 0x1F50 0x01 ten_bytes acked_world) = Inr True"
  by (simp add: run_simps acked_world_def ten_bytes_def)


lemmas run_simple_simps = sdo_segmented_download_simple_def initiate_loop.simps
  segment_loop_simple.simps







definition cancelled_world :: world where
  "cancelled_world = acked_world\<lparr>cancel_at := Some 5\<rparr>"

text \<open>
  Claim C4 (no soft cancel once the first segment is out) does not hold of v2.1: the segment
  loop polls the cancellation token before every segment. Here the initiate response and
  the response to segment 0 are both the expected acknowledgments; the token is set while
  segment 0 is being acknowledged, and the download returns false after one of its two
  segments, with the acknowledgment of segment 1 never asked for. With the token never
  set, the same bus traffic completes the download.
\<close>

theorem cancel_between_segments:
  "fst (sdo_segmented_download 1 0x1F50 0x01 ten_bytes cancelled_world) = Inr False \<and>
   length (segment_frames cancelled_world
     (snd (sdo_segmented_download 1 0x1F50 0x01 ten_bytes cancelled_world))) = 1 \<and>
   rx (snd (sdo_segmented_download 1 0x1F50 0x01 ten_bytes cancelled_world))
     = [(2, Some (ack_frame 0x30))] \<and>
   fst (sdo_segmented_download 1 0x1F50 0x01 ten_bytes (cancelled_world\<lparr>cancel_at := None\<rparr>))
     = Inr True"
  by (simp add: run_simps acked_world_def cancelled_world_def ten_bytes_def segment_frames_def)

definition stray_world :: world where
  "stray_world = quiet_world [(1, None), (2, Some (ack_frame 0x4F)), (3, Some (ack_frame 0x60)),
     (2, Some (ack_frame 0x20)), (2, Some (ack_frame 0x30))]"

text \<open>
  Claim C7 (tolerance while waiting for the initiate acknowledgment) does not hold of v2.1:
  the first frame from the node that is neither an abort nor the acknowledgment makes the
  download return false at once (here 3 ms after the start, with no segment sent), where
  the simple implementation skips the frame, takes the acknowledgment that follows and
  completes the download. \<open>initiate_loop_tolerates\<close> and \<open>initiate_loop_false\<close> below
  state the claim for the simple implementation.
\<close>

theorem stray_initiate_response:
  "fst (sdo_segmented_download 1 0x1F50 0x01 ten_bytes stray_world) = Inr False \<and>
   segment_frames stray_world (snd (sdo_segmented_download 1 0x1F50 0x01 ten_bytes stray_world)) = [] \<and>
   now (snd (sdo_segmented_download 1 0x1F50 0x01 ten_bytes stray_world)) = 3 \<and>
   fst (sdo_segmented_download_simple 1 0x1F50 0x01 ten_bytes stray_world) = Inr True"
  by (simp add: run_simps run_simple_simps stray_world_def ten_bytes_def segment_frames_def)

lemma initiate_loop_tolerates:
  assumes "now w - start_time < 5000" "rx w = (d, Some response) # rest"
    "arbitration_id response = sdo_rx node_id" "data response = b0 # bs"
    "b0 \<noteq> 0x80" "b0 \<noteq> 0x60"
  shows "initiate_loop node_id start_time w
       = initiate_loop node_id start_time (w\<lparr>now := now w + d, rx := rest\<rparr>)"
  using assms by (subst initiate_loop.simps) (simp add: bus_recv_def)

lemma initiate_loop_false:
  "initiate_loop node_id start_time w = (Inr False, w') \<Longrightarrow>
   5000 \<le> now w' - start_time \<or>
   (\<exists>d f bs. (d, Some f) \<in> set (rx w) \<and> arbitration_id f = sdo_rx node_id \<and> data f = 0x80 # bs)"
proof (induction node_id start_time w rule: initiate_loop.induct)
  case (1 node_id start_time w)
  show ?case
  proof (cases "now w - start_time < 5000")
    case False
    with "1.prems" show ?thesis by (simp add: initiate_loop.simps)
  next
    case True
    show ?thesis
    proof (cases "rx w")
      case Nil
      then have r: "bus_recv 500 w = (None, w\<lparr>now := now w + 500\<rparr>)" by (simp add: bus_recv_def)
      with "1.prems" True have "initiate_loop node_id start_time (w\<lparr>now := now w + 500\<rparr>) = (Inr False, w')"
        by (subst (asm) initiate_loop.simps) simp
      from "1.IH"(1)[OF True r[symmetric] refl this] Nil show ?thesis by simp
    next
      case (Cons e rest)
      obtain d m where e: "e = (d, m)" by (cases e)
      let ?w = "w\<lparr>now := now w + d, rx := rest\<rparr>"
      have r: "bus_recv 500 w = (m, ?w)" using Cons e by (simp add: bus_recv_def)
      have sub: "set (rx ?w) \<subseteq> set (rx w)" using Cons by auto
      show ?thesis
      proof (cases m)
        case None
        with "1.prems" True r have "initiate_loop node_id start_time ?w = (Inr False, w')"
          by (subst (asm) initiate_loop.simps) simp
        from "1.IH"(1)[OF True r[symmetric] None this] sub show ?thesis by auto
      next
        case (Some f)
        show ?thesis
        proof (cases "arbitration_id f = sdo_rx node_id")
          case False
          with "1.prems" True r Some have "initiate_loop node_id start_time ?w = (Inr False, w')"
            by (subst (asm) initiate_loop.simps) simp
          from "1.IH"(2)[OF True r[symmetric] Some False this] sub show ?thesis by auto
        next
          case id: True
          show ?thesis
          proof (cases "data f")
            case Nil
            with "1.prems" True r Some id show ?thesis
              by (subst (asm) initiate_loop.simps) simp
          next
            case (Cons b0 bs)
            show ?thesis
            proof (cases "b0 = 0x80")
              case True
              then show ?thesis using Cons id Some e \<open>rx w = e # rest\<close> by auto
            next
              case nb: False
              show ?thesis
              proof (cases "b0 = 0x60")
                case True
                with "1.prems" \<open>now w - start_time < 5000\<close> r Some id Cons nb show ?thesis
                  by (subst (asm) initiate_loop.simps) simp
              next
                case False
                with "1.prems" \<open>now w - start_time < 5000\<close> r Some id Cons nb
                have rec: "initiate_loop node_id start_time ?w = (Inr False, w')"
                  by (subst (asm) initiate_loop.simps) simp
                have nid: "\<not> arbitration_id f \<noteq> sdo_rx node_id" using id by simp
                from "1.IH"(3)[OF \<open>now w - start_time < 5000\<close> r[symmetric] Some nid Cons nb False rec] sub
                show ?thesis by auto
              qed
            qed
          qed
        qed
      qed
    qed
  qed
qed

lemma now_bus_recv: "now w \<le> now (snd (bus_recv t w))"
  by (simp add: bus_recv_def split: list.splits prod.splits)

lemma now_drain: "now w \<le> now (drain t w)"
proof (induction t w rule: drain.induct)
  case (1 t w)
  obtain m w' where r: "bus_recv t w = (m, w')" by (cases "bus_recv t w")
  then have "now w \<le> now w'" using now_bus_recv[of w t] by simp
  then show ?case using 1 r by (subst drain.simps) (auto split: option.splits)
qed

lemma now_set_program: "now w \<le> now (snd (set_program n p w))"
proof -
  let ?w2 = "bus_send \<lparr>arbitration_id = sdo_tx n,
      data = [0x2F, 0x51, 0x1F, 0x01, p, 0x00, 0x00, 0x00], is_extended_id = False\<rparr> (drain 1 w)"
  have a: "now w \<le> now ?w2" using now_drain[of w 1] by (simp add: bus_send_def)
  have "now ?w2 \<le> now (snd (bus_recv 1000 ?w2))" by (rule now_bus_recv)
  moreover have "snd (set_program n p w) = snd (bus_recv 1000 ?w2)"
    by (simp add: set_program_def Let_def split: prod.splits option.splits list.splits)
  ultimately show ?thesis using a by simp
qed

lemma now_get_program: "now w \<le> now (snd (get_program n w))"
proof -
  let ?w2 = "bus_send \<lparr>arbitration_id = sdo_tx n,
      data = [0x40, 0x51, 0x1F, 0x01, 0x00, 0x00, 0x00, 0x00], is_extended_id = False\<rparr> (drain 1 w)"
  have a: "now w \<le> now ?w2" using now_drain[of w 1] by (simp add: bus_send_def)
  have "now ?w2 \<le> now (snd (bus_recv 500 ?w2))" by (rule now_bus_recv)
  moreover have "snd (get_program n w) = snd (bus_recv 500 ?w2)"
    by (simp add: get_program_def Let_def split: prod.splits option.splits list.splits)
  ultimately show ?thesis using a by simp
qed

section \<open>Mode switch (\<^verbatim>\<open>_change_program\<close>), verification and the orchestrator (v2.1)\<close>

text \<open>
  The loop \<^verbatim>\<open>while (time.time() - start_time) < timeout_seconds\<close>; the counter
  \<^verbatim>\<open>attempt\<close> is only printed. Every round sleeps 200 ms, so the loop ends.
\<close>

function change_loop ::
  "int \<Rightarrow> byte \<Rightarrow> nat \<Rightarrow> nat \<Rightarrow> world \<Rightarrow> (exn + bool) \<times> world" where
  "change_loop node_id target_program start_time timeout_ms w =
     (if now w - start_time < timeout_ms then
        if is_cancelled w then (Inr False, w)
        else
          (case get_program node_id (sleep 200 w) of
             (Inl e, w1) \<Rightarrow> (Inl e, w1)
           | (Inr current_program, w1) \<Rightarrow>
               if current_program = Some target_program then (Inr True, w1)
               else
                 (case set_program node_id target_program w1 of
                    (Inl e, w2) \<Rightarrow> (Inl e, w2)
                  | (Inr sent, w2) \<Rightarrow>
                      change_loop node_id target_program start_time timeout_ms w2))
      else (Inr False, w))"
  by pat_completeness auto
termination
proof (relation "measure (\<lambda>(n, p, s, t, w). s + t - now w)", goal_cases)
  case 1
  show ?case by simp
next
  case (2 node_id target_program start_time timeout_ms w x w1 current_program y w2 sent)
  have "now (sleep 200 w) \<le> now w1"
    using now_get_program[of "sleep 200 w" node_id] 2(3) by (metis snd_conv)
  moreover have "now w1 \<le> now w2"
    using now_set_program[of w1 node_id target_program] 2(6) by (metis snd_conv)
  ultimately have "now w + 200 \<le> now w2" by (simp add: sleep_def)
  with 2(1) show ?case by simp
qed

declare change_loop.simps [simp del]

definition change_program :: "int \<Rightarrow> byte \<Rightarrow> nat \<Rightarrow> world \<Rightarrow> (exn + bool) \<times> world" where
  "change_program node_id target_program timeout_ms w =
     change_loop node_id target_program (now w) timeout_ms w"

text \<open>
  \<^verbatim>\<open>_verify_firmware\<close>: 15 s of sleep, two attempts to switch to the application with 2 s
  between them, then one more read of the mode, whose value is only printed.
\<close>

definition verify_firmware :: "int \<Rightarrow> bool \<Rightarrow> world \<Rightarrow> (exn + bool) \<times> world" where
  "verify_firmware node_id is_bootloader_file w =
     (case change_program node_id 1 10000 (sleep 15000 w) of
        (Inl e, w1) \<Rightarrow> (Inl e, w1)
      | (Inr True, w1) \<Rightarrow> (Inr True, w1)
      | (Inr False, w1) \<Rightarrow>
          (case change_program node_id 1 10000 (sleep 2000 w1) of
             (Inl e, w2) \<Rightarrow> (Inl e, w2)
           | (Inr True, w2) \<Rightarrow> (Inr True, w2)
           | (Inr False, w2) \<Rightarrow>
               (case get_program node_id w2 of
                  (Inl e, w3) \<Rightarrow> (Inl e, w3)
                | (Inr program, w3) \<Rightarrow> (Inr False, w3))))"

text \<open>\<^verbatim>\<open>str.encode()\<close> of ASCII text.\<close>

definition encode_ascii :: "string \<Rightarrow> byte list" where
  "encode_ascii s = map (\<lambda>c. of_nat (of_char c)) s"

text \<open>
  \<^verbatim>\<open>_read_file\<close>: the file as it is when it starts with a colon, else its conversion
  at base address 0x08018000; \<^verbatim>\<open>None\<close> when it cannot be read.
\<close>

definition read_file :: "string \<Rightarrow> world \<Rightarrow> (exn + byte list option) \<times> world" where
  "read_file firmware_path w =
     (case files w firmware_path of
        None \<Rightarrow> (Inr None, w)
      | Some content \<Rightarrow>
          if content \<noteq> [] \<and> hd content = 0x3A then (Inr (Some content), w)
          else (Inr (Some (encode_ascii (bin_to_intel_hex content 0x08018000))), w))"

definition program_firmware :: "int \<Rightarrow> byte list \<Rightarrow> world \<Rightarrow> (exn + bool) \<times> world" where
  "program_firmware node_id firmware_data w =
     sdo_segmented_download node_id 0x1F50 0x01 firmware_data w"

text \<open>
  \<^verbatim>\<open>_run_progress\<close>: notifies, runs the function, and turns an exception into
  \<^verbatim>\<open>None\<close>.
\<close>

definition run_progress ::
  "Progress \<Rightarrow> State \<Rightarrow> (world \<Rightarrow> (exn + 'a) \<times> world) \<Rightarrow> world \<Rightarrow> 'a option \<times> world" where
  "run_progress progress state func w =
     (case func (notify progress state w) of
        (Inl e, w') \<Rightarrow> (None, w')
      | (Inr result, w') \<Rightarrow> (Some result, w'))"

text \<open>
  Phase 2 of \<^verbatim>\<open>program\<close>, after the mode has been read: the result says whether the
  device is in the bootloader (\<^verbatim>\<open>in_bootloader\<close>); false stands for the
  \<^verbatim>\<open>Exception\<close> raised when the switch fails.
\<close>

definition enter_bootloader :: "int \<Rightarrow> byte option \<Rightarrow> world \<Rightarrow> bool \<times> world" where
  "enter_bootloader node_id current_mode w =
     (if current_mode = Some 0 then (True, notify BOOTLOADER SUCCESS w)
      else
        (case run_progress BOOTLOADER BUSY (change_program node_id 0 30000) w of
           (success, w1) \<Rightarrow>
             if success \<noteq> Some True then (False, notify BOOTLOADER FAILED w1)
             else (True, notify BOOTLOADER SUCCESS w1)))"

text \<open>
  The body of the inner \<^verbatim>\<open>try\<close> (phases 3 and 4). The result is the exception that
  leaves the block, if any, and the flag \<^verbatim>\<open>flashed\<close>.
\<close>

definition flash_and_verify ::
  "int \<Rightarrow> byte list \<Rightarrow> bool \<Rightarrow> bool \<Rightarrow> world \<Rightarrow> (exn option \<times> bool) \<times> world" where
  "flash_and_verify node_id buffer is_bootloader_file flashed w =
     (if flashed \<and> is_cancelled w then ((Some InterruptedError, flashed), w)
      else
        (case run_progress FLASHING BUSY (program_firmware node_id buffer) w of
           (success, w1) \<Rightarrow>
             if success \<noteq> Some True then
               ((Some (Failure ''Firmware upload failed''), flashed), notify FLASHING FAILED w1)
             else
               (let flashed = True;
                    w2 = notify FLASHING SUCCESS w1
                in if \<not> flashed \<and> is_cancelled w2 then ((Some InterruptedError, flashed), w2)
                   else
                     (case run_progress VERIFYING BUSY
                             (verify_firmware node_id is_bootloader_file) w2 of
                        (success, w3) \<Rightarrow>
                          if success \<noteq> Some True then
                            ((Some (Failure ''Firmware verification failed''), flashed),
                             notify VERIFYING FAILED w3)
                          else ((None, flashed), notify VERIFYING SUCCESS w3)))))"

text \<open>
  The \<^verbatim>\<open>finally\<close> block (phase 5). The result is the exception it raises itself, if
  any.
\<close>

definition return_to_application ::
  "int \<Rightarrow> bool \<Rightarrow> bool \<Rightarrow> world \<Rightarrow> exn option \<times> world" where
  "return_to_application node_id is_bootloader_file in_bootloader w =
     (if \<not> is_bootloader_file then
        if \<not> in_bootloader \<and> is_cancelled w then (Some InterruptedError, w)
        else
          (case run_progress APPLICATION BUSY (change_program node_id 1 30000) w of
             (success, w1) \<Rightarrow>
               if success \<noteq> Some True then (None, notify APPLICATION FAILED w1)
               else (None, notify APPLICATION SUCCESS w1))
      else (None, w))"

text \<open>
  \<^verbatim>\<open>program\<close>. An exception raised in the \<^verbatim>\<open>finally\<close> block replaces the one
  that was on its way; both \<^verbatim>\<open>except\<close> clauses return false.
\<close>

definition program :: "int \<Rightarrow> string \<Rightarrow> bool \<Rightarrow> world \<Rightarrow> bool \<times> world" where
  "program node_id firmware_path is_bootloader_file w =
     (case run_progress FILE BUSY (read_file firmware_path) w of
        (buffer, w1) \<Rightarrow>
          (case (case buffer of None \<Rightarrow> None | Some b \<Rightarrow> b) of
             None \<Rightarrow> (False, notify FILE FAILED w1)
           | Some buf \<Rightarrow>
               (case get_program node_id (notify FILE SUCCESS w1) of
                  (Inl e, w2) \<Rightarrow> (False, w2)
                | (Inr current_mode, w2) \<Rightarrow>
                    (case enter_bootloader node_id current_mode w2 of
                       (False, w3) \<Rightarrow> (False, w3)
                     | (True, w3) \<Rightarrow>
                         (case flash_and_verify node_id buf is_bootloader_file False w3 of
                            ((raised, flashed), w4) \<Rightarrow>
                              (case return_to_application node_id is_bootloader_file True w4 of
                                 (Some e, w5) \<Rightarrow> (False, w5)
                               | (None, w5) \<Rightarrow>
                                   (case raised of
                                      Some e \<Rightarrow> (False, w5)
                                    | None \<Rightarrow>
                                        if \<not> flashed \<and> is_cancelled w5 then (False, w5)
                                        else (True, w5))))))))"

text \<open>The notifications a run adds to the sink.\<close>

definition reported :: "world \<Rightarrow> world \<Rightarrow> (Progress \<times> State) list" where
  "reported w w' = drop (length (sink w)) (sink w')"

lemma sink_bus_recv [simp]: "sink (snd (bus_recv t w)) = sink w"
  by (simp add: bus_recv_def split: list.splits prod.splits)

lemma sink_bus_send [simp]: "sink (bus_send m w) = sink w"
  by (simp add: bus_send_def)

lemma sink_sleep [simp]: "sink (sleep t w) = sink w"
  by (simp add: sleep_def)

lemma sink_notify [simp]: "sink (notify p s w) = sink w @ [(p, s)]"
  by (simp add: notify_def)

lemma sink_drain [simp]: "sink (drain t w) = sink w"
proof (induction t w rule: drain.induct)
  case (1 t w)
  obtain m w' where r: "bus_recv t w = (m, w')" by (cases "bus_recv t w")
  then have "sink w' = sink w" using sink_bus_recv[of t w] by simp
  then show ?case using 1 r by (subst drain.simps) (auto split: option.splits)
qed

lemma sink_wait_loop [simp]: "sink (snd (wait_loop n s t w)) = sink w"
proof (induction n s t w rule: wait_loop.induct)
  case (1 n s t w)
  obtain m w' where r: "bus_recv 100 w = (m, w')" by (cases "bus_recv 100 w")
  then have "sink w' = sink w" using sink_bus_recv[of 100 w] by simp
  then show ?case using 1 r by (subst wait_loop.simps) (auto split: option.splits)
qed

lemma sink_wait_for_sdo_response [simp]: "sink (snd (wait_for_sdo_response n t w)) = sink w"
  by (simp add: wait_for_sdo_response_def)

lemma sink_set_program [simp]: "sink (snd (set_program n p w)) = sink w"
proof -
  let ?w2 = "bus_send \<lparr>arbitration_id = sdo_tx n,
      data = [0x2F, 0x51, 0x1F, 0x01, p, 0x00, 0x00, 0x00], is_extended_id = False\<rparr> (drain 1 w)"
  have "snd (set_program n p w) = snd (bus_recv 1000 ?w2)"
    by (simp add: set_program_def Let_def split: prod.splits option.splits list.splits)
  then show ?thesis by simp
qed

lemma sink_get_program [simp]: "sink (snd (get_program n w)) = sink w"
proof -
  let ?w2 = "bus_send \<lparr>arbitration_id = sdo_tx n,
      data = [0x40, 0x51, 0x1F, 0x01, 0x00, 0x00, 0x00, 0x00], is_extended_id = False\<rparr> (drain 1 w)"
  have "snd (get_program n w) = snd (bus_recv 500 ?w2)"
    by (simp add: get_program_def Let_def split: prod.splits option.splits list.splits)
  then show ?thesis by simp
qed

lemma sink_change_loop [simp]: "sink (snd (change_loop n p s t w)) = sink w"
proof (induction n p s t w rule: change_loop.induct)
  case (1 n p s t w)
  obtain g w1 where g: "get_program n (sleep 200 w) = (g, w1)" by (cases "get_program n (sleep 200 w)")
  then have s1: "sink w1 = sink w" using sink_get_program[of n "sleep 200 w"] by simp
  obtain q w2 where q: "set_program n p w1 = (q, w2)" by (cases "set_program n p w1")
  then have s2: "sink w2 = sink w" using sink_set_program[of n p w1] s1 by simp
  show ?case using 1 g q s1 s2
    by (subst change_loop.simps) (auto split: sum.splits)
qed

lemma sink_change_program [simp]: "sink (snd (change_program n p t w)) = sink w"
  by (simp add: change_program_def)

lemma segment_loop_step:
  assumes "offset < length payload" "\<not> is_cancelled w"
    and "wait_for_sdo_response node_id 2000
           (bus_send (segment_frame node_id
              (segment_cmd toggle
                 (length payload \<le> offset + length (take 7 (drop offset payload)))
                 (length (take 7 (drop offset payload))))
              (take 7 (drop offset payload))) w) = (resp, w2)"
  shows "segment_loop node_id payload offset toggle num w =
           segment_loop node_id payload (offset + length (take 7 (drop offset payload)))
             (1 - toggle) (num + 1) w2 \<or>
         (snd (segment_loop node_id payload offset toggle num w) = w2 \<and>
          fst (segment_loop node_id payload offset toggle num w) \<noteq> Inr True)"
proof -
  have "segment_loop node_id payload offset toggle num w =
         (case resp of
               None \<Rightarrow> (Inr False, w2)
             | Some response \<Rightarrow>
                 (case data response of
                    [] \<Rightarrow> (Inl IndexError, w2)
                  | b0 # _ \<Rightarrow>
                      if b0 = 0x80 then
                        (case abort_code_of response of
                           None \<Rightarrow> (Inl StructError, w2)
                         | Some abort_code \<Rightarrow> (Inr False, w2))
                      else if uint b0 AND 0xE0 \<noteq> 0x20 then (Inr False, w2)
                      else if drop_bit 4 (uint b0) AND 0x01 \<noteq> toggle then (Inr False, w2)
                      else segment_loop node_id payload
                             (offset + length (take 7 (drop offset payload))) (1 - toggle)
                             (num + 1) w2))"
    using assms by (subst segment_loop.simps) (simp add: Let_def)
  then show ?thesis
    by (simp split: option.splits list.splits)
qed

lemma sink_segment_loop [simp]: "sink (snd (segment_loop n p off tog num w)) = sink w"
proof (induction "length p - off" arbitrary: off tog num w rule: less_induct)
  case less
  show ?case
  proof (cases "off < length p \<and> \<not> is_cancelled w")
    case False
    then show ?thesis by (auto simp: segment_loop.simps)
  next
    case True
    let ?seg = "take 7 (drop off p)"
    let ?w1 = "bus_send (segment_frame n
        (segment_cmd tog (length p \<le> off + length ?seg) (length ?seg)) ?seg) w"
    obtain resp w2 where wr: "wait_for_sdo_response n 2000 ?w1 = (resp, w2)"
      by (cases "wait_for_sdo_response n 2000 ?w1")
    then have s2: "sink w2 = sink w" using sink_wait_for_sdo_response[of n 2000 ?w1] by simp
    have m: "length p - (off + length ?seg) < length p - off" using True by auto
    from segment_loop_step[OF conjunct1[OF True] conjunct2[OF True] wr, of num]
    show ?thesis
    proof
      assume "segment_loop n p off tog num w =
           segment_loop n p (off + length ?seg) (1 - tog) (num + 1) w2"
      then show ?thesis using less.hyps[OF m, of "1 - tog" "num + 1" w2] s2 by simp
    next
      assume "snd (segment_loop n p off tog num w) = w2 \<and>
          fst (segment_loop n p off tog num w) \<noteq> Inr True"
      then show ?thesis using s2 by simp
    qed
  qed
qed

lemma sink_sdo_segmented_download [simp]:
  "sink (snd (sdo_segmented_download n i si p w)) = sink w"
proof (cases "pack_le32 (int (length p))")
  case None
  then show ?thesis by (simp add: sdo_segmented_download_def Let_def)
next
  case (Some size_bytes)
  let ?w1 = "bus_send (initiate_frame n i si size_bytes) (drain 1 w)"
  obtain resp w2 where wr: "wait_for_sdo_response n 5000 ?w1 = (resp, w2)"
    by (cases "wait_for_sdo_response n 5000 ?w1")
  then have s2: "sink w2 = sink w" using sink_wait_for_sdo_response[of n 5000 ?w1] by simp
  have "snd (sdo_segmented_download n i si p w) = w2 \<or>
        snd (sdo_segmented_download n i si p w) = snd (segment_loop n p 0 0 0 w2)"
    using Some wr by (simp add: sdo_segmented_download_def Let_def split: option.splits list.splits)
  then show ?thesis using s2 by (elim disjE) simp_all
qed

lemma sink_program_firmware [simp]: "sink (snd (program_firmware n p w)) = sink w"
  by (simp add: program_firmware_def)

lemma sink_verify_firmware [simp]: "sink (snd (verify_firmware n b w)) = sink w"
proof -
  obtain r1 w1 where c1: "change_program n 1 10000 (sleep 15000 w) = (r1, w1)"
    by (cases "change_program n 1 10000 (sleep 15000 w)")
  then have s1: "sink w1 = sink w" using sink_change_program[of n 1 10000 "sleep 15000 w"] by simp
  obtain r2 w2 where c2: "change_program n 1 10000 (sleep 2000 w1) = (r2, w2)"
    by (cases "change_program n 1 10000 (sleep 2000 w1)")
  then have s2: "sink w2 = sink w" using sink_change_program[of n 1 10000 "sleep 2000 w1"] s1 by simp
  obtain r3 w3 where c3: "get_program n w2 = (r3, w3)" by (cases "get_program n w2")
  then have s3: "sink w3 = sink w" using sink_get_program[of n w2] s2 by simp
  have "snd (verify_firmware n b w) = w1 \<or> snd (verify_firmware n b w) = w2 \<or>
        snd (verify_firmware n b w) = w3"
    using c1 c2 c3 by (simp add: verify_firmware_def split: sum.splits bool.splits)
  then show ?thesis using s1 s2 s3 by (elim disjE) simp_all
qed

lemma sink_read_file [simp]: "sink (snd (read_file path w)) = sink w"
  by (simp add: read_file_def split: option.splits)

lemma sink_run_progress:
  assumes "\<And>v. sink (snd (func v)) = sink v"
  shows "sink (snd (run_progress p s func w)) = sink w @ [(p, s)]"
proof -
  have "sink (snd (func (notify p s w))) = sink w @ [(p, s)]" using assms by simp
  then show ?thesis by (auto simp: run_progress_def split: prod.splits sum.splits)
qed

lemma enter_bootloader_sink:
  "enter_bootloader n mode w = (ok, w') \<Longrightarrow>
   \<exists>e. sink w' = sink w @ e \<and> set e \<subseteq> {(BOOTLOADER, BUSY), (BOOTLOADER, FAILED), (BOOTLOADER, SUCCESS)}"
proof -
  assume a: "enter_bootloader n mode w = (ok, w')"
  obtain r w1 where rp: "run_progress BOOTLOADER BUSY (change_program n 0 30000) w = (r, w1)"
    by (cases "run_progress BOOTLOADER BUSY (change_program n 0 30000) w")
  then have "sink w1 = sink w @ [(BOOTLOADER, BUSY)]"
    using sink_run_progress[of "change_program n 0 30000" BOOTLOADER BUSY w] by simp
  then show ?thesis using a rp
    by (auto simp: enter_bootloader_def split: if_splits)
qed

lemma return_to_application_sink:
  "return_to_application n False True w = (fin, w') \<Longrightarrow>
   fin = None \<and> (\<exists>s. sink w' = sink w @ [(APPLICATION, BUSY), (APPLICATION, s)] \<and> (s = SUCCESS \<or> s = FAILED))"
proof -
  assume a: "return_to_application n False True w = (fin, w')"
  obtain r w1 where rp: "run_progress APPLICATION BUSY (change_program n 1 30000) w = (r, w1)"
    by (cases "run_progress APPLICATION BUSY (change_program n 1 30000) w")
  then have "sink w1 = sink w @ [(APPLICATION, BUSY)]"
    using sink_run_progress[of "change_program n 1 30000" APPLICATION BUSY w] by simp
  then show ?thesis using a rp
    by (auto simp: return_to_application_def split: if_splits)
qed

lemma return_to_application_failed:
  "return_to_application n False True w = (fin, w') \<Longrightarrow>
   fst (change_program n 1 30000 (notify APPLICATION BUSY w)) \<noteq> Inr True \<Longrightarrow>
   sink w' = sink w @ [(APPLICATION, BUSY), (APPLICATION, FAILED)]"
proof -
  assume a: "return_to_application n False True w = (fin, w')"
    and f: "fst (change_program n 1 30000 (notify APPLICATION BUSY w)) \<noteq> Inr True"
  obtain r w1 where rp: "run_progress APPLICATION BUSY (change_program n 1 30000) w = (r, w1)"
    by (cases "run_progress APPLICATION BUSY (change_program n 1 30000) w")
  then have s: "sink w1 = sink w @ [(APPLICATION, BUSY)]"
    using sink_run_progress[of "change_program n 1 30000" APPLICATION BUSY w] by simp
  have "r \<noteq> Some True" using rp f
    by (auto simp: run_progress_def split: prod.splits sum.splits)
  then show ?thesis using a rp s
    by (auto simp: return_to_application_def split: if_splits)
qed

lemma flash_and_verify_sink:
  "flash_and_verify n buf b False w = ((raised, flashed), w') \<Longrightarrow>
   (sink w' = sink w @ [(FLASHING, BUSY), (FLASHING, FAILED)] \<and> raised \<noteq> None \<and> \<not> flashed) \<or>
   (sink w' = sink w @ [(FLASHING, BUSY), (FLASHING, SUCCESS), (VERIFYING, BUSY), (VERIFYING, FAILED)]
      \<and> raised \<noteq> None \<and> flashed) \<or>
   (sink w' = sink w @ [(FLASHING, BUSY), (FLASHING, SUCCESS), (VERIFYING, BUSY), (VERIFYING, SUCCESS)]
      \<and> raised = None \<and> flashed)"
proof -
  assume a: "flash_and_verify n buf b False w = ((raised, flashed), w')"
  obtain r w1 where rp: "run_progress FLASHING BUSY (program_firmware n buf) w = (r, w1)"
    by (cases "run_progress FLASHING BUSY (program_firmware n buf) w")
  then have s1: "sink w1 = sink w @ [(FLASHING, BUSY)]"
    using sink_run_progress[of "program_firmware n buf" FLASHING BUSY w] by simp
  obtain r2 w3 where rv: "run_progress VERIFYING BUSY (verify_firmware n b) (notify FLASHING SUCCESS w1) = (r2, w3)"
    by (cases "run_progress VERIFYING BUSY (verify_firmware n b) (notify FLASHING SUCCESS w1)")
  then have s3: "sink w3 = sink w @ [(FLASHING, BUSY), (FLASHING, SUCCESS), (VERIFYING, BUSY)]"
    using sink_run_progress[of "verify_firmware n b" VERIFYING BUSY "notify FLASHING SUCCESS w1"] s1
    by simp
  show ?thesis using a rp rv s1 s3
    by (auto simp: flash_and_verify_def Let_def split: if_splits)
qed

lemma return_to_application_any:
  "return_to_application n b True w = (fin, w') \<Longrightarrow>
   fin = None \<and>
   (\<exists>a. sink w' = sink w @ a \<and>
     (if b then a = [] else \<exists>s. a = [(APPLICATION, BUSY), (APPLICATION, s)] \<and> (s = SUCCESS \<or> s = FAILED)))"
proof (cases b)
  case True
  assume "return_to_application n b True w = (fin, w')"
  with True show ?thesis by (simp add: return_to_application_def)
next
  case False
  assume "return_to_application n b True w = (fin, w')"
  with False return_to_application_sink[of n w fin w'] show ?thesis by auto
qed

definition file_ok :: "(Progress \<times> State) list" where
  "file_ok = [(FILE, BUSY), (FILE, SUCCESS)]"

definition bootloader_events :: "(Progress \<times> State) set" where
  "bootloader_events = {(BOOTLOADER, BUSY), (BOOTLOADER, FAILED), (BOOTLOADER, SUCCESS)}"

lemma program_run:
  assumes "program n path b w = (res, w')"
  shows "(\<not> res \<and> reported w w' = [(FILE, BUSY), (FILE, FAILED)]) \<or>
         (\<not> res \<and> (\<exists>e. reported w w' = file_ok @ e \<and> set e \<subseteq> bootloader_events)) \<or>
         (\<exists>e f a raised.
            reported w w' = file_ok @ e @ f @ a \<and> set e \<subseteq> bootloader_events \<and>
            res = (raised = None) \<and>
            (f = [(FLASHING, BUSY), (FLASHING, FAILED)] \<and> raised \<noteq> None \<or>
             f = [(FLASHING, BUSY), (FLASHING, SUCCESS), (VERIFYING, BUSY), (VERIFYING, FAILED)] \<and> raised \<noteq> None \<or>
             f = [(FLASHING, BUSY), (FLASHING, SUCCESS), (VERIFYING, BUSY), (VERIFYING, SUCCESS)] \<and> raised = None) \<and>
            (if b then a = []
             else \<exists>s. a = [(APPLICATION, BUSY), (APPLICATION, s)] \<and> (s = SUCCESS \<or> s = FAILED)))"
proof -
  obtain buffer w1 where rf: "run_progress FILE BUSY (read_file path) w = (buffer, w1)"
    by (cases "run_progress FILE BUSY (read_file path) w")
  then have s1: "sink w1 = sink w @ [(FILE, BUSY)]"
    using sink_run_progress[of "read_file path" FILE BUSY w] by simp
  show ?thesis
  proof (cases "case buffer of None \<Rightarrow> None | Some x \<Rightarrow> x")
    case None
    with assms rf have "res = False" "w' = notify FILE FAILED w1" by (simp_all add: program_def)
    then show ?thesis using s1 by (simp add: reported_def)
  next
    case (Some buf)
    obtain g w2 where gp: "get_program n (notify FILE SUCCESS w1) = (g, w2)"
      by (cases "get_program n (notify FILE SUCCESS w1)")
    then have s2: "sink w2 = sink w @ file_ok"
      using sink_get_program[of n "notify FILE SUCCESS w1"] s1 by (simp add: file_ok_def)
    show ?thesis
    proof (cases g)
      case (Inl e)
      with assms rf Some gp have "res = False" "w' = w2" by (simp_all add: program_def)
      then show ?thesis using s2 by (auto simp: reported_def bootloader_events_def)
    next
      case (Inr mode)
      obtain ok w3 where eb: "enter_bootloader n mode w2 = (ok, w3)"
        by (cases "enter_bootloader n mode w2")
      from enter_bootloader_sink[OF this] obtain e where
        e: "sink w3 = sink w2 @ e" "set e \<subseteq> bootloader_events"
        by (auto simp: bootloader_events_def)
      show ?thesis
      proof (cases ok)
        case False
        with assms rf Some gp Inr eb have "res = False" "w' = w3" by (simp_all add: program_def)
        then show ?thesis using s2 e by (auto simp: reported_def)
      next
        case True
        obtain raised flashed w4 where fv: "flash_and_verify n buf b False w3 = ((raised, flashed), w4)"
          by (cases "flash_and_verify n buf b False w3") auto
        obtain fin w5 where ra: "return_to_application n b True w4 = (fin, w5)"
          by (cases "return_to_application n b True w4")
        from return_to_application_any[OF ra] obtain a where
          a: "fin = None" "sink w5 = sink w4 @ a"
            "if b then a = [] else \<exists>s. a = [(APPLICATION, BUSY), (APPLICATION, s)] \<and> (s = SUCCESS \<or> s = FAILED)"
          by blast
        from flash_and_verify_sink[OF fv] obtain f where
          f: "sink w4 = sink w3 @ f"
            "f = [(FLASHING, BUSY), (FLASHING, FAILED)] \<and> raised \<noteq> None \<or>
             f = [(FLASHING, BUSY), (FLASHING, SUCCESS), (VERIFYING, BUSY), (VERIFYING, FAILED)] \<and> raised \<noteq> None \<or>
             f = [(FLASHING, BUSY), (FLASHING, SUCCESS), (VERIFYING, BUSY), (VERIFYING, SUCCESS)] \<and> raised = None"
            "raised = None \<longrightarrow> flashed"
          by blast
        have w': "w' = w5" and r: "res = (raised = None)"
          using assms rf Some gp Inr eb True fv ra a(1) f(3)
          by (auto simp: program_def split: option.splits)
        have "reported w w' = file_ok @ e @ f @ a"
          using w' a(2) f(1) e(1) s2 by (simp add: reported_def)
        then show ?thesis using e(2) r f(2) a(3) by blast
      qed
    qed
  qed
qed

lemma not_in_bootloader_events:
  "set e \<subseteq> bootloader_events \<Longrightarrow> (FLASHING, FAILED) \<notin> set e \<and> (VERIFYING, SUCCESS) \<notin> set e"
  by (auto simp: bootloader_events_def)

text \<open>What the \<^verbatim>\<open>finally\<close> block reports.\<close>

definition application_events :: "bool \<Rightarrow> (Progress \<times> State) list \<Rightarrow> bool" where
  "application_events is_bootloader_file a =
     (if is_bootloader_file then a = []
      else a = [(APPLICATION, BUSY), (APPLICATION, SUCCESS)] \<or>
           a = [(APPLICATION, BUSY), (APPLICATION, FAILED)])"

lemma not_in_application_events:
  "application_events b a \<Longrightarrow> (FLASHING, FAILED) \<notin> set a \<and> (VERIFYING, SUCCESS) \<notin> set a"
  by (auto simp: application_events_def split: if_splits)

lemma not_in_file_ok: "(FLASHING, FAILED) \<notin> set file_ok \<and> (VERIFYING, SUCCESS) \<notin> set file_ok"
  by (simp add: file_ok_def)

lemma program_outcomes:
  assumes "program n path b w = (res, w')"
  shows "(\<not> res \<and> reported w w' = [(FILE, BUSY), (FILE, FAILED)]) \<or>
    (\<exists>e. \<not> res \<and> reported w w' = file_ok @ e \<and> set e \<subseteq> bootloader_events) \<or>
    (\<exists>e a. \<not> res \<and> set e \<subseteq> bootloader_events \<and> application_events b a \<and>
      reported w w' = file_ok @ e @ [(FLASHING, BUSY), (FLASHING, FAILED)] @ a) \<or>
    (\<exists>e a. \<not> res \<and> set e \<subseteq> bootloader_events \<and> application_events b a \<and>
      reported w w' = file_ok @ e @
         [(FLASHING, BUSY), (FLASHING, SUCCESS), (VERIFYING, BUSY), (VERIFYING, FAILED)] @ a) \<or>
    (\<exists>e a. res \<and> set e \<subseteq> bootloader_events \<and> application_events b a \<and>
      reported w w' = file_ok @ e @
         [(FLASHING, BUSY), (FLASHING, SUCCESS), (VERIFYING, BUSY), (VERIFYING, SUCCESS)] @ a)"
proof -
  from program_run[OF assms, where ?'a = unit] consider
      (1) "\<not> res \<and> reported w w' = [(FILE, BUSY), (FILE, FAILED)]"
    | (2) "\<not> res \<and> (\<exists>e. reported w w' = file_ok @ e \<and> set e \<subseteq> bootloader_events)"
    | (3) "\<exists>e f a (raised :: unit option).
            reported w w' = file_ok @ e @ f @ a \<and> set e \<subseteq> bootloader_events \<and>
            res = (raised = None) \<and>
            (f = [(FLASHING, BUSY), (FLASHING, FAILED)] \<and> raised \<noteq> None \<or>
             f = [(FLASHING, BUSY), (FLASHING, SUCCESS), (VERIFYING, BUSY), (VERIFYING, FAILED)] \<and> raised \<noteq> None \<or>
             f = [(FLASHING, BUSY), (FLASHING, SUCCESS), (VERIFYING, BUSY), (VERIFYING, SUCCESS)] \<and> raised = None) \<and>
            (if b then a = []
             else \<exists>s. a = [(APPLICATION, BUSY), (APPLICATION, s)] \<and> (s = SUCCESS \<or> s = FAILED))"
    by blast
  then show ?thesis
  proof cases
    case 1
    then show ?thesis by simp
  next
    case 2
    then show ?thesis by blast
  next
    case 3
    then obtain e f a and raised :: "unit option" where
      r: "reported w w' = file_ok @ e @ f @ a" "set e \<subseteq> bootloader_events" "res = (raised = None)"
      and f: "f = [(FLASHING, BUSY), (FLASHING, FAILED)] \<and> raised \<noteq> None \<or>
             f = [(FLASHING, BUSY), (FLASHING, SUCCESS), (VERIFYING, BUSY), (VERIFYING, FAILED)] \<and> raised \<noteq> None \<or>
             f = [(FLASHING, BUSY), (FLASHING, SUCCESS), (VERIFYING, BUSY), (VERIFYING, SUCCESS)] \<and> raised = None"
      and a: "if b then a = []
             else \<exists>s. a = [(APPLICATION, BUSY), (APPLICATION, s)] \<and> (s = SUCCESS \<or> s = FAILED)"
      by blast
    have ae: "application_events b a" using a by (auto simp: application_events_def)
    from f consider
       (a) "f = [(FLASHING, BUSY), (FLASHING, FAILED)]" "\<not> res"
     | (b) "f = [(FLASHING, BUSY), (FLASHING, SUCCESS), (VERIFYING, BUSY), (VERIFYING, FAILED)]" "\<not> res"
     | (c) "f = [(FLASHING, BUSY), (FLASHING, SUCCESS), (VERIFYING, BUSY), (VERIFYING, SUCCESS)]" "res"
      using r(3) by blast
    then show ?thesis
    proof cases
      case a
      have "\<exists>e a. \<not> res \<and> set e \<subseteq> bootloader_events \<and> application_events b a \<and>
        reported w w' = file_ok @ e @ [(FLASHING, BUSY), (FLASHING, FAILED)] @ a"
        using a r ae by blast
      then show ?thesis by blast
    next
      case b
      have "\<exists>e a. \<not> res \<and> set e \<subseteq> bootloader_events \<and> application_events b a \<and>
        reported w w' = file_ok @ e @
         [(FLASHING, BUSY), (FLASHING, SUCCESS), (VERIFYING, BUSY), (VERIFYING, FAILED)] @ a"
        using b r ae by blast
      then show ?thesis by blast
    next
      case c
      have "\<exists>e a. res \<and> set e \<subseteq> bootloader_events \<and> application_events b a \<and>
        reported w w' = file_ok @ e @
         [(FLASHING, BUSY), (FLASHING, SUCCESS), (VERIFYING, BUSY), (VERIFYING, SUCCESS)] @ a"
        using c r ae by blast
      then show ?thesis by blast
    qed
  qed
qed

lemma flash_failure_reported:
  assumes "flash_and_verify n buf b False w = ((raised, flashed), w')"
  shows "((FLASHING, FAILED) \<in> set (reported w w')) =
         (fst (program_firmware n buf (notify FLASHING BUSY w)) \<noteq> Inr True)"
proof -
  obtain r w1 where rp: "run_progress FLASHING BUSY (program_firmware n buf) w = (r, w1)"
    by (cases "run_progress FLASHING BUSY (program_firmware n buf) w")
  have rr: "(r \<noteq> Some True) = (fst (program_firmware n buf (notify FLASHING BUSY w)) \<noteq> Inr True)"
    using rp by (auto simp: run_progress_def split: prod.splits sum.splits)
  obtain r2 w3 where rv: "run_progress VERIFYING BUSY (verify_firmware n b) (notify FLASHING SUCCESS w1) = (r2, w3)"
    by (cases "run_progress VERIFYING BUSY (verify_firmware n b) (notify FLASHING SUCCESS w1)")
  have fl: "flashed = (r = Some True)"
    using assms rp rv by (auto simp: flash_and_verify_def Let_def split: if_splits)
  from flash_and_verify_sink[OF assms] have "((FLASHING, FAILED) \<in> set (reported w w')) = (\<not> flashed)"
    by (auto simp: reported_def)
  with fl rr show ?thesis by simp
qed

lemma change_program_cancelled:
  "is_cancelled w \<Longrightarrow> 0 < t \<Longrightarrow> change_program n p t w = (Inr False, w)"
  unfolding change_program_def by (subst change_loop.simps) simp


text \<open>
  Claim C9 (a failed cleanup does not fail the update, \<^verbatim>\<open>program\<close> of v2.1). Take any
  run in which the verification is reported as successful, which is the last of the phases
  before the return to the application. Then the result of the run is true, whatever the
  return to the application does; for an image that is not a bootloader image the outcome
  of that switch, \<open>SUCCESS\<close> or \<open>FAILED\<close>, is reported as the last notification. By
  \<open>return_to_application_failed\<close> it is \<open>FAILED\<close> whenever \<^verbatim>\<open>_change_program\<close> does
  not return true.
\<close>

theorem cleanup_failure_not_fatal:
  assumes "program node_id firmware_path is_bootloader_file w = (res, w')"
    and "(VERIFYING, SUCCESS) \<in> set (reported w w')"
  shows "res \<and>
    (\<not> is_bootloader_file \<longrightarrow>
       (\<exists>pre s. reported w w' = pre @ [(VERIFYING, SUCCESS), (APPLICATION, BUSY), (APPLICATION, s)] \<and>
          (s = SUCCESS \<or> s = FAILED)))"
  using program_outcomes[OF assms(1)]
proof (elim disjE exE conjE)
  assume "reported w w' = [(FILE, BUSY), (FILE, FAILED)]"
  with assms(2) show ?thesis by simp
next
  fix e assume "reported w w' = file_ok @ e" "set e \<subseteq> bootloader_events"
  with assms(2) not_in_bootloader_events[of e] not_in_file_ok show ?thesis by simp
next
  fix e a
  assume "set e \<subseteq> bootloader_events" "application_events is_bootloader_file a"
    "reported w w' = file_ok @ e @ [(FLASHING, BUSY), (FLASHING, FAILED)] @ a"
  with assms(2) not_in_bootloader_events[of e] not_in_file_ok
    not_in_application_events[of is_bootloader_file a]
  show ?thesis by simp
next
  fix e a
  assume "set e \<subseteq> bootloader_events" "application_events is_bootloader_file a"
    "reported w w' = file_ok @ e @
         [(FLASHING, BUSY), (FLASHING, SUCCESS), (VERIFYING, BUSY), (VERIFYING, FAILED)] @ a"
  with assms(2) not_in_bootloader_events[of e] not_in_file_ok
    not_in_application_events[of is_bootloader_file a]
  show ?thesis by simp
next
  fix e a
  assume res: "res" and ae: "application_events is_bootloader_file a"
    and r: "reported w w' = file_ok @ e @
         [(FLASHING, BUSY), (FLASHING, SUCCESS), (VERIFYING, BUSY), (VERIFYING, SUCCESS)] @ a"
  have "\<exists>pre s. reported w w' = pre @ [(VERIFYING, SUCCESS), (APPLICATION, BUSY), (APPLICATION, s)] \<and>
          (s = SUCCESS \<or> s = FAILED)" if "\<not> is_bootloader_file"
  proof -
    from that ae obtain s where s: "a = [(APPLICATION, BUSY), (APPLICATION, s)]" "s = SUCCESS \<or> s = FAILED"
      by (auto simp: application_events_def)
    have "reported w w' = (file_ok @ e @ [(FLASHING, BUSY), (FLASHING, SUCCESS), (VERIFYING, BUSY)])
        @ [(VERIFYING, SUCCESS), (APPLICATION, BUSY), (APPLICATION, s)]"
      using r s(1) by simp
    then show ?thesis using s(2) by blast
  qed
  then show ?thesis using res by blast
qed

text \<open>
  A run to evaluate: node 1, a file that holds the end-of-file record only (12 bytes, two
  segments), a device that is in the bootloader already (mode 0).
\<close>

definition mode_frame :: "byte \<Rightarrow> message" where
  "mode_frame v = \<lparr>arbitration_id = 0x581, data = [0x4F, 0x51, 0x1F, 0x01, v, 0, 0, 0],
     is_extended_id = False\<rparr>"

definition bench_world :: "(nat \<times> message option) list \<Rightarrow> world" where
  "bench_world script = \<lparr>now = 0, rx = script, tx = [], cancel_at = None, sink = [],
     files = (\<lambda>p. if p = ''fw.hex'' then Some (encode_ascii eof_line) else None)\<rparr>"


definition silent_after_verify_world :: world where
  "silent_after_verify_world = bench_world
     [(1, None), (2, Some (mode_frame 0)),
      (1, None), (3, Some (ack_frame 0x60)), (2, Some (ack_frame 0x20)), (2, Some (ack_frame 0x30)),
      (1, None), (2, Some (mode_frame 1))]"

lemma eof_bytes:
  "encode_ascii eof_line = [0x3A, 0x30, 0x30, 0x30, 0x30, 0x30, 0x30, 0x30, 0x31, 0x46, 0x46, 0x0A]"
  by (simp add: encode_ascii_def eof_line_def newline_def)

lemmas program_simps = program_def run_progress_def read_file_def get_program_def
  enter_bootloader_def flash_and_verify_def program_firmware_def verify_firmware_def
  change_program_def change_loop.simps set_program_def return_to_application_def notify_def
  sleep_def mode_frame_def bench_world_def eof_bytes reported_def segment_frame_def
  segment_cmd_def initiate_frame_def



lemma silent_after_verify_run:
  "reported silent_after_verify_world (snd (program 1 ''fw.hex'' False silent_after_verify_world)) =
     [(FILE, BUSY), (FILE, SUCCESS), (BOOTLOADER, SUCCESS), (FLASHING, BUSY),
      (FLASHING, SUCCESS), (VERIFYING, BUSY), (VERIFYING, SUCCESS),
      (APPLICATION, BUSY), (APPLICATION, FAILED)]"
  by (simp add: program_simps run_simps silent_after_verify_world_def)

theorem cleanup_failure_not_fatal_witness:
  "(VERIFYING, SUCCESS) \<in> set (reported silent_after_verify_world
      (snd (program 1 ''fw.hex'' False silent_after_verify_world))) \<and>
   (APPLICATION, FAILED) \<in> set (reported silent_after_verify_world
      (snd (program 1 ''fw.hex'' False silent_after_verify_world))) \<and>
   fst (program 1 ''fw.hex'' False silent_after_verify_world) \<and>
   (\<exists>pre s. reported silent_after_verify_world
        (snd (program 1 ''fw.hex'' False silent_after_verify_world))
        = pre @ [(VERIFYING, SUCCESS), (APPLICATION, BUSY), (APPLICATION, s)] \<and>
      (s = SUCCESS \<or> s = FAILED))"
proof -
  have m: "(VERIFYING, SUCCESS) \<in> set (reported silent_after_verify_world
      (snd (program 1 ''fw.hex'' False silent_after_verify_world)))"
    "(APPLICATION, FAILED) \<in> set (reported silent_after_verify_world
      (snd (program 1 ''fw.hex'' False silent_after_verify_world)))"
    by (simp_all add: silent_after_verify_run)
  have p: "program 1 ''fw.hex'' False silent_after_verify_world =
      (fst (program 1 ''fw.hex'' False silent_after_verify_world),
       snd (program 1 ''fw.hex'' False silent_after_verify_world))"
    by simp
  from cleanup_failure_not_fatal[OF p m(1)] m show ?thesis by blast
qed


end
